theory Spec2Isabelle
  imports Main "HOL-Library.Sublist"
begin

section \<open>Strings and slash-separated paths\<close>

text \<open>
  Go strings are byte sequences; they are modelled as \<open>string\<close> (a list of
  \<open>char\<close>). The functions of this section are the parts of Go's \<open>strings\<close> and
  \<open>path\<close> packages that \<open>walk/config.go\<close> and the directory loader call.

  \<open>strings.TrimSpace\<close> removes the leading and the trailing white space of
  a string, white space being the runes for which \<open>unicode.IsSpace\<close> holds:
  the six of ASCII (tab, line feed, vertical tab, form feed, carriage return,
  space), U+0085, U+00A0, U+1680, U+2000 to U+200A, U+2028, U+2029, U+202F,
  U+205F and U+3000. A Go string holds them in UTF-8; \<open>spaceRunes\<close> lists
  their encodings. A rune is decoded at the start of a string exactly when the
  string begins with its encoding, and at the end of a string exactly when the
  string ends with it (bytes that are not valid UTF-8 decode to U+FFFD, of
  width one, which is not white space).
\<close>

definition spaceRunes :: "string list" where
  "spaceRunes =
     [[CHR 0x09], [CHR 0x0A], [CHR 0x0B], [CHR 0x0C], [CHR 0x0D], [CHR 0x20],
      [CHR 0xC2, CHR 0x85], [CHR 0xC2, CHR 0xA0],
      [CHR 0xE1, CHR 0x9A, CHR 0x80],
      [CHR 0xE2, CHR 0x80, CHR 0x80], [CHR 0xE2, CHR 0x80, CHR 0x81],
      [CHR 0xE2, CHR 0x80, CHR 0x82], [CHR 0xE2, CHR 0x80, CHR 0x83],
      [CHR 0xE2, CHR 0x80, CHR 0x84], [CHR 0xE2, CHR 0x80, CHR 0x85],
      [CHR 0xE2, CHR 0x80, CHR 0x86], [CHR 0xE2, CHR 0x80, CHR 0x87],
      [CHR 0xE2, CHR 0x80, CHR 0x88], [CHR 0xE2, CHR 0x80, CHR 0x89],
      [CHR 0xE2, CHR 0x80, CHR 0x8A],
      [CHR 0xE2, CHR 0x80, CHR 0xA8], [CHR 0xE2, CHR 0x80, CHR 0xA9],
      [CHR 0xE2, CHR 0x80, CHR 0xAF], [CHR 0xE2, CHR 0x81, CHR 0x9F],
      [CHR 0xE3, CHR 0x80, CHR 0x80]]"

text \<open>
  The width in bytes of the white space rune at the start of a string, and of
  the one at its end; \<open>0\<close> when the rune there is not white space or the
  string is empty.
\<close>

definition leadingSpace :: "string \<Rightarrow> nat" where
  "leadingSpace s =
     (case find (\<lambda>r. prefix r s) spaceRunes of None \<Rightarrow> 0 | Some r \<Rightarrow> length r)"

definition trailingSpace :: "string \<Rightarrow> nat" where
  "trailingSpace s =
     (case find (\<lambda>r. suffix r s) spaceRunes of None \<Rightarrow> 0 | Some r \<Rightarrow> length r)"

text \<open>
  \<open>strings.TrimLeftFunc(s, unicode.IsSpace)\<close> and
  \<open>strings.TrimRightFunc(s, unicode.IsSpace)\<close>: white space runes are taken
  off one end as long as there is one. \<open>TrimSpace\<close> trims the left end, then
  the right end of what is left.
\<close>

function trimLeftSpace :: "string \<Rightarrow> string" where
  "trimLeftSpace s =
     (if leadingSpace s = 0 then s else trimLeftSpace (drop (leadingSpace s) s))"
  by pat_completeness auto
termination
proof (relation "measure length")
  show "wf (measure length)"
    by simp
next
  fix s :: string
  assume a: "leadingSpace s \<noteq> 0"
  then obtain r where "find (\<lambda>r. prefix r s) spaceRunes = Some r"
    by (auto simp: leadingSpace_def split: option.splits)
  then have "prefix r s" "r \<in> set spaceRunes"
    by (auto simp: find_Some_iff)
  then have "s \<noteq> []"
    by (auto simp: spaceRunes_def)
  with a show "(drop (leadingSpace s) s, s) \<in> measure length"
    by simp
qed

declare trimLeftSpace.simps [simp del]

function trimRightSpace :: "string \<Rightarrow> string" where
  "trimRightSpace s =
     (if trailingSpace s = 0 then s
      else trimRightSpace (take (length s - trailingSpace s) s))"
  by pat_completeness auto
termination
proof (relation "measure length")
  show "wf (measure length)"
    by simp
next
  fix s :: string
  assume a: "trailingSpace s \<noteq> 0"
  then obtain r where "find (\<lambda>r. suffix r s) spaceRunes = Some r"
    by (auto simp: trailingSpace_def split: option.splits)
  then have "suffix r s" "r \<in> set spaceRunes"
    by (auto simp: find_Some_iff)
  then have "s \<noteq> []"
    by (auto simp: spaceRunes_def)
  with a show "(take (length s - trailingSpace s) s, s) \<in> measure length"
    by simp
qed

declare trimRightSpace.simps [simp del]

definition TrimSpace :: "string \<Rightarrow> string" where
  "TrimSpace s = trimRightSpace (trimLeftSpace s)"

text \<open>\<open>strings.ContainsAny(s, chars)\<close>.\<close>

definition ContainsAny :: "string \<Rightarrow> string \<Rightarrow> bool" where
  "ContainsAny s chars = list_ex (\<lambda>c. c \<in> set chars) s"

text \<open>
  \<open>splitSlash\<close> cuts a path at every slash (\<open>a//b\<close> gives \<open>a\<close>, the empty
  element and \<open>b\<close>); \<open>joinSlash\<close> puts the elements together again with
  one slash between neighbours.
\<close>

fun splitSlash :: "string \<Rightarrow> string list" where
  "splitSlash [] = [[]]"
| "splitSlash (c # cs) =
     (if c = CHR ''/'' then [] # splitSlash cs
      else (case splitSlash cs of
              [] \<Rightarrow> [[c]]
            | e # es \<Rightarrow> (c # e) # es))"

fun joinSlash :: "string list \<Rightarrow> string" where
  "joinSlash [] = []"
| "joinSlash [e] = e"
| "joinSlash (e # e' # es) = e @ ''/'' @ joinSlash (e' # es)"

text \<open>
  \<open>path.Clean\<close>: empty and \<open>.\<close> elements are dropped; a \<open>..\<close> element removes
  the element written before it when there is one that is not itself a kept
  \<open>..\<close>, is kept when the path is not rooted, and is dropped at the root. The
  elements written so far are \<open>out\<close>, in order. An empty result is \<open>.\<close>.
\<close>

fun cleanElems :: "bool \<Rightarrow> string list \<Rightarrow> string list \<Rightarrow> string list" where
  "cleanElems rooted out [] = out"
| "cleanElems rooted out (e # es) =
     (if e = [] \<or> e = ''.'' then cleanElems rooted out es
      else if e = ''..'' then
        (if out \<noteq> [] \<and> last out \<noteq> ''..'' then cleanElems rooted (butlast out) es
         else if \<not> rooted then cleanElems rooted (out @ [''..'']) es
         else cleanElems rooted out es)
      else cleanElems rooted (out @ [e]) es)"

definition Clean :: "string \<Rightarrow> string" where
  "Clean p =
     (if p = [] then ''.''
      else if hd p = CHR ''/'' then ''/'' @ joinSlash (cleanElems True [] (splitSlash p))
      else (case cleanElems False [] (splitSlash p) of
              [] \<Rightarrow> ''.''
            | e # es \<Rightarrow> joinSlash (e # es)))"

text \<open>
  \<open>path.Join(a, b)\<close>: empty elements are ignored, the rest is joined with a
  slash and cleaned; the join of nothing but empty elements is the empty string.
\<close>

definition Join :: "string \<Rightarrow> string \<Rightarrow> string" where
  "Join a b =
     (if a = [] \<and> b = [] then []
      else if a = [] then Clean b
      else Clean (a @ ''/'' @ b))"

text \<open>
  \<open>path.Dir(p)\<close>: everything up to and including the last slash, cleaned.
\<close>

fun dirPart :: "string \<Rightarrow> string" where
  "dirPart [] = []"
| "dirPart (c # cs) =
     (if CHR ''/'' \<in> set cs then c # dirPart cs
      else if c = CHR ''/'' then [c]
      else [])"

definition Dir :: "string \<Rightarrow> string" where
  "Dir p = Clean (dirPart p)"

section \<open>The walk configuration (\<open>walk/config.go\<close>)\<close>

text \<open>
  An \<open>error\<close> value of Go: a message, a message with an error formatted
  into it (\<open>fmt.Errorf\<close>), or the list that \<open>errors.Join\<close> wraps.
\<close>

datatype error = Error string | Errorf string error | JoinError "error list"

text \<open>
  \<open>errors.Join(errs...)\<close> is \<open>nil\<close> when there is nothing to join. The callers
  below only ever append non-nil errors to \<open>errs\<close>.
\<close>

definition errorsJoin :: "error list \<Rightarrow> error option" where
  "errorsJoin errs = (if errs = [] then None else Some (JoinError errs))"

record walkConfig =
  updateOnly :: bool
  excludes :: "string list"
  ignore :: bool
  follow :: "string list"

text \<open>
  A directive of a build file, and the two fields of \<open>rule.File\<close> that
  \<open>Configure\<close> reads.
\<close>

record directive =
  Key :: string
  Value :: string

record ruleFile =
  Pkg :: string
  Directives :: "directive list"

text \<open>
  The glob library \<open>doublestar\<close> is not part of the repository. Its two entry
  points are parameters: \<open>Match\<close> returns the match and the pattern's syntax
  error, \<open>MatchUnvalidated\<close> only the match.
\<close>

record doublestar =
  Match :: "string \<Rightarrow> string \<Rightarrow> bool \<times> error option"
  MatchUnvalidated :: "string \<Rightarrow> string \<Rightarrow> bool"

definition checkPathMatchPattern :: "doublestar \<Rightarrow> string \<Rightarrow> error option" where
  "checkPathMatchPattern ds pattern = snd (Match ds pattern ''x'')"

definition matchAnyGlob :: "doublestar \<Rightarrow> string list \<Rightarrow> string \<Rightarrow> bool" where
  "matchAnyGlob ds patterns p = list_ex (\<lambda>x. MatchUnvalidated ds x p) patterns"

definition isExcluded :: "doublestar \<Rightarrow> walkConfig \<Rightarrow> string \<Rightarrow> bool" where
  "isExcluded ds wc p = matchAnyGlob ds (excludes wc) p"

definition shouldFollow :: "doublestar \<Rightarrow> walkConfig \<Rightarrow> string \<Rightarrow> bool" where
  "shouldFollow ds wc p = matchAnyGlob ds (follow wc) p"

text \<open>
  What a run can end with instead of a result: \<open>log.Fatalf\<close> on an unknown
  generation mode, with the value and the package (the process exits), a panic
  of \<open>getLoaded\<close>, or a receive on a channel that is never closed.
\<close>

datatype fatal = UnknownGenerationMode string string

datatype abort =
    Fatal fatal
  | PanicNotLoaded string
  | BlockedForever string

text \<open>The lines \<open>Configure\<close> writes with \<open>log.Printf\<close>.\<close>

datatype logMsg =
    ExclusionPatternNotValid string error
  | FollowPatternNotValid string error
  | IgnoreTakesNoArguments string string

text \<open>
  One round of the loop over \<open>f.Directives\<close> in \<open>Configure\<close>: the \<open>switch\<close>
  on the directive's key. The state is the log written so far and \<open>wcCopy\<close>.
\<close>

definition applyDirective ::
  "doublestar \<Rightarrow> string \<Rightarrow> string \<Rightarrow> logMsg list \<times> walkConfig \<Rightarrow> directive
     \<Rightarrow> fatal + logMsg list \<times> walkConfig" where
  "applyDirective ds rel pkg st d =
     (let lg = fst st; wcCopy = snd st in
      if Key d = ''generation_mode'' then
        (if TrimSpace (Value d) = ''update_only'' then Inr (lg, wcCopy\<lparr>updateOnly := True\<rparr>)
         else if TrimSpace (Value d) = ''create_and_update''
           then Inr (lg, wcCopy\<lparr>updateOnly := False\<rparr>)
         else Inl (UnknownGenerationMode (Value d) pkg))
      else if Key d = ''exclude'' then
        (case checkPathMatchPattern ds (Join rel (Value d)) of
           Some err \<Rightarrow> Inr (lg @ [ExclusionPatternNotValid (Join rel (Value d)) err], wcCopy)
         | None \<Rightarrow> Inr (lg, wcCopy\<lparr>excludes := excludes wcCopy @ [Join rel (Value d)]\<rparr>))
      else if Key d = ''follow'' then
        (case checkPathMatchPattern ds (Join rel (Value d)) of
           Some err \<Rightarrow> Inr (lg @ [FollowPatternNotValid (Join rel (Value d)) err], wcCopy)
         | None \<Rightarrow> Inr (lg, wcCopy\<lparr>follow := follow wcCopy @ [Join rel (Value d)]\<rparr>))
      else if Key d = ''ignore'' then
        Inr (if Value d \<noteq> [] then lg @ [IgnoreTakesNoArguments pkg (Value d)] else lg,
             wcCopy\<lparr>ignore := True\<rparr>)
      else Inr (lg, wcCopy))"

fun applyDirectives ::
  "doublestar \<Rightarrow> string \<Rightarrow> string \<Rightarrow> logMsg list \<times> walkConfig \<Rightarrow> directive list
     \<Rightarrow> fatal + logMsg list \<times> walkConfig" where
  "applyDirectives ds rel pkg st [] = Inr st"
| "applyDirectives ds rel pkg st (d # rest) =
     (case applyDirective ds rel pkg st d of
        Inl a \<Rightarrow> Inl a
      | Inr st' \<Rightarrow> applyDirectives ds rel pkg st' rest)"

record Config =
  RepoRoot :: string
  ReadBuildFilesDir :: string
  Exts :: walkConfig

text \<open>
  Of \<open>config.Config\<close> the walker reads the repository root, the directory of
  build files to read, and its own entry \<open>c.Exts[walkName]\<close>, which is the
  field \<open>Exts\<close> here.
\<close>

definition getWalkConfig :: "Config \<Rightarrow> walkConfig" where
  "getWalkConfig c = Exts c"

text \<open>
  \<open>Configurer.Configure\<close>: the copy of the walk configuration with \<open>ignore\<close>
  reset, the loop over the directives when there is a build file, and the
  assignment \<open>c.Exts[walkName] = wcCopy\<close>. The result is the configuration
  after the call with the log lines written on the way, or the abort.
\<close>

definition storeExts ::
  "Config \<Rightarrow> fatal + logMsg list \<times> walkConfig \<Rightarrow> fatal + logMsg list \<times> Config" where
  "storeExts c r = map_sum id (\<lambda>st. (fst st, c\<lparr>Exts := snd st\<rparr>)) r"

definition Configure ::
  "doublestar \<Rightarrow> Config \<Rightarrow> string \<Rightarrow> ruleFile option \<Rightarrow> fatal + logMsg list \<times> Config" where
  "Configure ds c rel f =
     (let wc = getWalkConfig c;
          wcCopy = wc\<lparr>ignore := False\<rparr> in
      case f of
        None \<Rightarrow> storeExts c (Inr ([], wcCopy))
      | Some fl \<Rightarrow> storeExts c (applyDirectives ds rel (Pkg fl) ([], wcCopy) (Directives fl)))"

subsection \<open>The claim's words for the derived configuration\<close>

text \<open>
  These three definitions say what the specification says, to be compared with
  \<open>Configure\<close>: the directives of an optional build file; the patterns that a
  list of directives adds under one key (each value joined with \<open>rel\<close>, the
  valid ones, in file order); and the value of \<open>updateOnly\<close> after the
  directives (that of the last \<open>generation_mode\<close> directive, the inherited
  one when there is none).
\<close>

definition fileDirectives :: "ruleFile option \<Rightarrow> directive list" where
  "fileDirectives f = (case f of None \<Rightarrow> [] | Some fl \<Rightarrow> Directives fl)"

definition validPatterns :: "doublestar \<Rightarrow> string \<Rightarrow> string \<Rightarrow> directive list \<Rightarrow> string list" where
  "validPatterns ds rel key dirs =
     filter (\<lambda>p. checkPathMatchPattern ds p = None)
       (map (\<lambda>d. Join rel (Value d)) (filter (\<lambda>d. Key d = key) dirs))"

definition lastGenerationMode :: "directive list \<Rightarrow> bool \<Rightarrow> bool" where
  "lastGenerationMode dirs inherited =
     (case filter (\<lambda>d. Key d = ''generation_mode'') dirs of
        [] \<Rightarrow> inherited
      | g # gs \<Rightarrow> TrimSpace (Value (last (g # gs))) = ''update_only'')"

section \<open>The ignore sources (\<open>walk/config.go\<close>)\<close>

text \<open>
  \<open>loadBazelIgnore\<close> opens \<open>.bazelignore\<close> and scans it line by line. What the
  file system gives is the input of the model: the file does not exist,
  \<open>os.Open\<close> fails otherwise, or it succeeds; then the scanner delivers lines
  until the end of the file or until a read fails, and \<open>scanner.Err()\<close> holds
  that failure.
\<close>

datatype openResult =
    OpenNotExist
  | OpenFailed error
  | Opened "string list" "error option"

definition nothingIgnored :: "string \<Rightarrow> bool" where
  "nothingIgnored p = False"

text \<open>
  The body of the scanning loop: the set \<open>excludes\<close> is a Go map with empty
  values. The line written with \<open>log.Printf\<close> for a glob is not part of the
  result.
\<close>

definition scanLine :: "(string \<rightharpoonup> unit) \<Rightarrow> string \<Rightarrow> (string \<rightharpoonup> unit)" where
  "scanLine excl line =
     (let ign = TrimSpace line in
      if ign = [] \<or> hd ign = CHR ''#'' then excl
      else if ContainsAny ign ''*?['' then excl
      else excl(Clean ign \<mapsto> ()))"

fun scanLines :: "(string \<rightharpoonup> unit) \<Rightarrow> string list \<Rightarrow> (string \<rightharpoonup> unit)" where
  "scanLines excl [] = excl"
| "scanLines excl (line # rest) = scanLines (scanLine excl line) rest"

definition loadBazelIgnore :: "openResult \<Rightarrow> (string \<Rightarrow> bool) \<times> error option" where
  "loadBazelIgnore file =
     (case file of
        OpenNotExist \<Rightarrow> (nothingIgnored, None)
      | OpenFailed err \<Rightarrow>
          (nothingIgnored, Some (Errorf ''.bazelignore exists but could not be read: '' err))
      | Opened lines scanErr \<Rightarrow>
          (\<lambda>p. scanLines Map.empty lines p \<noteq> None, None))"

text \<open>
  \<open>loadRepoDirectoryIgnore\<close> reads \<open>REPO.bazel\<close> with \<open>os.ReadFile\<close> and
  parses it with the build-file parser, which is a parameter. Of the syntax
  tree the loader looks at calls, identifiers, lists and string literals.
\<close>

datatype readFileResult =
    ReadNotExist
  | ReadFailed error
  | ReadOk string

datatype expr =
    Ident string
  | StringExpr string
  | ListExpr "expr list"
  | CallExpr expr "expr list"
  | OtherExpr

fun validItems :: "doublestar \<Rightarrow> expr list \<Rightarrow> string list" where
  "validItems ds [] = []"
| "validItems ds (StringExpr v # items) =
     (if checkPathMatchPattern ds v = None then v # validItems ds items
      else validItems ds items)"
| "validItems ds (_ # items) = validItems ds items"

fun findIgnoreDirectories :: "doublestar \<Rightarrow> expr list \<Rightarrow> error + string list" where
  "findIgnoreDirectories ds [] = Inr []"
| "findIgnoreDirectories ds (CallExpr (Ident name) args # rest) =
     (if name = ''ignore_directories'' then
        (case args of
           [ListExpr items] \<Rightarrow> Inr (validItems ds items)
         | [_] \<Rightarrow> Inl (Error ''REPO.bazel ignore_directories() unexpected argument type'')
         | _ \<Rightarrow> Inl (Error ''REPO.bazel ignore_directories() expects one argument''))
      else findIgnoreDirectories ds rest)"
| "findIgnoreDirectories ds (_ # rest) = findIgnoreDirectories ds rest"

definition loadRepoDirectoryIgnore ::
  "doublestar \<Rightarrow> (string \<Rightarrow> error + expr list) \<Rightarrow> readFileResult
     \<Rightarrow> (string \<Rightarrow> bool) \<times> error option" where
  "loadRepoDirectoryIgnore ds Parse file =
     (case file of
        ReadNotExist \<Rightarrow> (nothingIgnored, None)
      | ReadFailed err \<Rightarrow>
          (nothingIgnored, Some (Errorf ''REPO.bazel exists but could not be read: '' err))
      | ReadOk content \<Rightarrow>
          (case Parse content of
             Inl err \<Rightarrow> (nothingIgnored, Some (Errorf ''failed to parse REPO.bazel: '' err))
           | Inr stmts \<Rightarrow>
               (case findIgnoreDirectories ds stmts of
                  Inl err \<Rightarrow> (nothingIgnored, Some err)
                | Inr ignoreDirectories \<Rightarrow>
                    if ignoreDirectories = [] then (nothingIgnored, None)
                    else (\<lambda>p. list_ex (\<lambda>ign. MatchUnvalidated ds ign p) ignoreDirectories,
                          None))))"

subsection \<open>The claim's words for the flat-ignore predicate\<close>

text \<open>
  A line of \<open>.bazelignore\<close> is an entry when, trimmed, it is not blank, not a
  comment and has no glob character. \<open>beneath e p\<close>: the path \<open>p\<close> lies
  strictly beneath \<open>e\<close>. \<open>coveredAsClaimed dirs lines p\<close> is the predicate in
  the words of the claim: \<open>p\<close> is the cleaned form of an entry, or lies
  strictly beneath an entry that names a directory (one of \<open>dirs\<close>).
\<close>

definition isEntry :: "string \<Rightarrow> bool" where
  "isEntry line =
     (TrimSpace line \<noteq> [] \<and> hd (TrimSpace line) \<noteq> CHR ''#''
      \<and> \<not> ContainsAny (TrimSpace line) ''*?['')"

definition beneath :: "string \<Rightarrow> string \<Rightarrow> bool" where
  "beneath e p = (length e + 1 < length p \<and> take (length e + 1) p = e @ ''/'')"

definition coveredAsClaimed :: "string list \<Rightarrow> string list \<Rightarrow> string \<Rightarrow> bool" where
  "coveredAsClaimed dirs lines p =
     list_ex (\<lambda>line. isEntry line \<and>
                (p = Clean (TrimSpace line)
                 \<or> (Clean (TrimSpace line) \<in> set dirs \<and> beneath (Clean (TrimSpace line)) p)))
       lines"

section \<open>The directory cache (\<open>cache.get\<close>, \<open>cache.getLoaded\<close>)\<close>

text \<open>
  An entry of \<open>entryMap\<close>: while its channel \<open>doneC\<close> is open the entry is
  pending and holds nothing yet; once the channel is closed it holds the
  directory info and the error of the load. The cache is the map from keys to
  entries. It is polymorphic in the directory info, because the two versions of
  the loader store different records.
\<close>

datatype 'i cacheEntry = Pending | Resolved 'i "error option"

type_synonym 'i cache = "string \<rightharpoonup> 'i cacheEntry"

text \<open>
  \<open>cache.get\<close> as one goroutine runs it while no other goroutine touches the
  cache. The loader is a closure: it gets the key, sees the cache (with the
  pending entry of the key in it) and acts on the rest of the world \<open>'w\<close>
  (the file system, the log). With an entry present, \<open>get\<close> waits for its
  channel; nobody else is there to close the channel of a pending entry. Alone,
  \<open>LoadOrStore\<close> finds what the \<open>Load\<close> before it found, so the second
  lookup has no branch of its own. A loader that panics or exits takes
  \<open>get\<close> with it.
\<close>

definition get ::
  "'i cache \<Rightarrow> string \<Rightarrow> (string \<Rightarrow> 'i cache \<Rightarrow> 'w \<Rightarrow> abort + ('i \<times> error option) \<times> 'w) \<Rightarrow> 'w
     \<Rightarrow> abort + ('i \<times> error option) \<times> 'i cache \<times> 'w" where
  "get c key load w =
     (case c key of
        Some (Resolved info err) \<Rightarrow> Inr ((info, err), c, w)
      | Some Pending \<Rightarrow> Inl (BlockedForever key)
      | None \<Rightarrow>
          (case load key (c(key \<mapsto> Pending)) w of
             Inl a \<Rightarrow> Inl a
           | Inr (r, w') \<Rightarrow> Inr (r, c(key \<mapsto> Resolved (fst r) (snd r)), w')))"

definition getLoaded :: "'i cache \<Rightarrow> string \<Rightarrow> abort + 'i \<times> error option" where
  "getLoaded c rel =
     (case c rel of
        Some (Resolved info err) \<Rightarrow> Inr (info, err)
      | _ \<Rightarrow> Inl (PanicNotLoaded rel))"

text \<open>
  A sequence of calls of \<open>get\<close>, each with a key and a loader of its own; the
  results are collected in order.
\<close>

fun getMany ::
  "'i cache \<Rightarrow> (string \<times> (string \<Rightarrow> 'i cache \<Rightarrow> 'w \<Rightarrow> abort + ('i \<times> error option) \<times> 'w)) list \<Rightarrow> 'w
     \<Rightarrow> abort + ('i \<times> error option) list \<times> 'i cache \<times> 'w" where
  "getMany c [] w = Inr ([], c, w)"
| "getMany c (call # calls) w =
     (case get c (fst call) (snd call) w of
        Inl a \<Rightarrow> Inl a
      | Inr (r, c', w') \<Rightarrow>
          (case getMany c' calls w' of
             Inl a \<Rightarrow> Inl a
           | Inr (rs, c'', w'') \<Rightarrow> Inr (r # rs, c'', w'')))"

section \<open>The directory loader (\<open>walker.loadDirInfo\<close>)\<close>

text \<open>A directory entry as the loader uses it: \<open>e.Name()\<close> and \<open>e.IsDir()\<close>.\<close>

record dirEntry =
  Name :: string
  IsDir :: bool

text \<open>
  The walker. The functions that \<open>loadDirInfo\<close> calls and that live in other
  files of the package are its parameters, with the file system:
  \<open>os.ReadDir\<close> (entries and error, both can be there at once),
  \<open>loadBuildFile\<close>, \<open>configureForWalk\<close> (it can end the run, as
  \<open>Configure\<close> can), the two exclusion predicates of a configuration,
  \<open>maybeResolveSymlink\<close> and \<open>findGenFiles\<close>. The cache \<open>w.cache\<close> is passed
  beside the walker, since it changes.
\<close>

record walker =
  rootConfig :: Config
  ReadDir :: "string \<Rightarrow> dirEntry list \<times> error option"
  loadBuildFile ::
    "walkConfig \<Rightarrow> string \<Rightarrow> string \<Rightarrow> string \<Rightarrow> dirEntry list \<Rightarrow> ruleFile option \<times> error option"
  configureForWalk :: "walkConfig \<Rightarrow> string \<Rightarrow> ruleFile option \<Rightarrow> fatal + walkConfig"
  isExcludedDir :: "walkConfig \<Rightarrow> string \<Rightarrow> bool"
  isExcludedFile :: "walkConfig \<Rightarrow> string \<Rightarrow> bool"
  maybeResolveSymlink :: "walkConfig \<Rightarrow> string \<Rightarrow> string \<Rightarrow> dirEntry \<Rightarrow> dirEntry"
  findGenFiles :: "walkConfig \<Rightarrow> ruleFile option \<Rightarrow> string list"

text \<open>The newer record \<open>DirInfo\<close> and the older \<open>dirInfo\<close>.\<close>

record DirInfo =
  Subdirs :: "string list"
  RegularFiles :: "string list"
  GenFiles :: "string list"
  File :: "ruleFile option"
  config :: walkConfig

record dirInfo =
  subdirs :: "string list"
  regularFiles :: "string list"
  file_old :: "ruleFile option"
  config_old :: walkConfig

text \<open>\<open>errs = append(errs, err)\<close> under \<open>if err != nil\<close>.\<close>

definition appendErr :: "error list \<Rightarrow> error option \<Rightarrow> error list" where
  "appendErr errs err = (case err of None \<Rightarrow> errs | Some e \<Rightarrow> errs @ [e])"

text \<open>\<open>parentRel\<close>: \<open>path.Dir(rel)\<close>, with \<open>.\<close> replaced by the empty path.\<close>

definition parentRel :: "string \<Rightarrow> string" where
  "parentRel rel = (if Dir rel = ''.'' then [] else Dir rel)"

text \<open>
  The loop over the entries: a directory that is not excluded goes to the
  subdirectories, a non-directory that is not excluded goes to the regular
  files. The pair is (\<open>Subdirs\<close>, \<open>RegularFiles\<close>).
\<close>

fun classifyEntries ::
  "walker \<Rightarrow> walkConfig \<Rightarrow> string \<Rightarrow> string \<Rightarrow> string list \<times> string list \<Rightarrow> dirEntry list
     \<Rightarrow> string list \<times> string list" where
  "classifyEntries w cfg rel dir acc [] = acc"
| "classifyEntries w cfg rel dir acc (e0 # es) =
     (let entryRel = Join rel (Name e0);
          e = maybeResolveSymlink w cfg dir entryRel e0 in
      if IsDir e \<and> \<not> isExcludedDir w cfg entryRel
        then classifyEntries w cfg rel dir (fst acc @ [Name e], snd acc) es
      else if \<not> IsDir e \<and> \<not> isExcludedFile w cfg entryRel
        then classifyEntries w cfg rel dir (fst acc, snd acc @ [Name e]) es
      else classifyEntries w cfg rel dir acc es)"

text \<open>
  Two names for what both loaders compute first: the directory's path in the
  file system, \<open>filepath.Join(w.rootConfig.RepoRoot, rel)\<close>, and the result
  of \<open>loadBuildFile\<close> for the directory under a parent configuration.
\<close>

definition walkerDir :: "walker \<Rightarrow> string \<Rightarrow> string" where
  "walkerDir w rel = Join (RepoRoot (rootConfig w)) rel"

definition walkerBuildFile :: "walker \<Rightarrow> walkConfig \<Rightarrow> string \<Rightarrow> ruleFile option \<times> error option" where
  "walkerBuildFile w pc rel =
     loadBuildFile w pc (ReadBuildFilesDir (rootConfig w)) rel (walkerDir w rel)
       (fst (ReadDir w (walkerDir w rel)))"

text \<open>
  The newer \<open>loadDirInfo\<close>. Reducing the capacity of the three slices to
  their length leaves their elements as they are, so it does not show in the
  lists.
\<close>

definition parentConfig :: "walker \<Rightarrow> DirInfo cache \<Rightarrow> string \<Rightarrow> abort + walkConfig" where
  "parentConfig w c rel =
     (if rel = [] then Inr (getWalkConfig (rootConfig w))
      else map_sum id (\<lambda>r. config (fst r)) (getLoaded c (parentRel rel)))"

definition loadDirInfo :: "walker \<Rightarrow> DirInfo cache \<Rightarrow> string \<Rightarrow> abort + DirInfo \<times> error option" where
  "loadDirInfo w c rel =
     (let dir = walkerDir w rel;
          entries = fst (ReadDir w dir);
          errs = appendErr [] (snd (ReadDir w dir)) in
      case parentConfig w c rel of
        Inl a \<Rightarrow> Inl a
      | Inr pc \<Rightarrow>
          (let bf = walkerBuildFile w pc rel;
               errs' = appendErr errs (snd bf) in
           case configureForWalk w pc rel (fst bf) of
             Inl a \<Rightarrow> Inl (Fatal a)
           | Inr cfg \<Rightarrow>
               (let entries' = (if isExcludedDir w cfg rel then [] else entries);
                    lists = classifyEntries w cfg rel dir ([], []) entries' in
                Inr (\<lparr>Subdirs = fst lists, RegularFiles = snd lists,
                      GenFiles = findGenFiles w cfg (fst bf), File = fst bf, config = cfg\<rparr>,
                     errorsJoin errs'))))"

text \<open>The older \<open>loadDirInfo\<close>, on the cache of older records.\<close>

definition parentConfig_old :: "walker \<Rightarrow> dirInfo cache \<Rightarrow> string \<Rightarrow> abort + walkConfig" where
  "parentConfig_old w c rel =
     (if rel = [] then Inr (getWalkConfig (rootConfig w))
      else map_sum id (\<lambda>r. config_old (fst r)) (getLoaded c (parentRel rel)))"

definition loadDirInfo_old :: "walker \<Rightarrow> dirInfo cache \<Rightarrow> string \<Rightarrow> abort + dirInfo \<times> error option" where
  "loadDirInfo_old w c rel =
     (let dir = walkerDir w rel;
          entries = fst (ReadDir w dir);
          errs = appendErr [] (snd (ReadDir w dir)) in
      case parentConfig_old w c rel of
        Inl a \<Rightarrow> Inl a
      | Inr pc \<Rightarrow>
          (let bf = walkerBuildFile w pc rel;
               errs' = appendErr errs (snd bf) in
           case configureForWalk w pc rel (fst bf) of
             Inl a \<Rightarrow> Inl (Fatal a)
           | Inr cfg \<Rightarrow>
               (let entries' = (if isExcludedDir w cfg rel then [] else entries);
                    lists = classifyEntries w cfg rel dir ([], []) entries' in
                Inr (\<lparr>subdirs = fst lists, regularFiles = snd lists,
                      file_old = fst bf, config_old = cfg\<rparr>,
                     errorsJoin errs'))))"

text \<open>
  What the older record keeps of a newer one, for the comparison of the two
  loaders: everything but \<open>GenFiles\<close>.
\<close>

definition forgetGenFiles :: "DirInfo \<Rightarrow> dirInfo" where
  "forgetGenFiles info =
     \<lparr>subdirs = Subdirs info, regularFiles = RegularFiles info,
      file_old = File info, config_old = config info\<rparr>"

definition forgetEntry :: "DirInfo cacheEntry \<Rightarrow> dirInfo cacheEntry" where
  "forgetEntry e = (case e of Pending \<Rightarrow> Pending | Resolved info err \<Rightarrow> Resolved (forgetGenFiles info) err)"

definition forgetCache :: "DirInfo cache \<Rightarrow> dirInfo cache" where
  "forgetCache c = (\<lambda>key. map_option forgetEntry (c key))"

section \<open>Filling the cache (\<open>walker.populateCache\<close>)\<close>










subsection \<open>The claim's words for paths and their ancestors\<close>

text \<open>
  A name of a directory entry is simple: not empty, not \<open>.\<close> or \<open>..\<close>, without
  a slash. A relative path is clean when it is empty (the root) or made of
  simple names with one slash between neighbours. The proper ancestors of a
  path are its proper prefixes at element boundaries, the shortest first, the
  root left out. The walker's file system has simple names when
  \<open>os.ReadDir\<close> returns only simple names and \<open>maybeResolveSymlink\<close> keeps
  the name of an entry.
\<close>

definition simpleName :: "string \<Rightarrow> bool" where
  "simpleName n = (n \<noteq> [] \<and> n \<noteq> ''.'' \<and> n \<noteq> ''..'' \<and> CHR ''/'' \<notin> set n)"

definition cleanRel :: "string \<Rightarrow> bool" where
  "cleanRel rel = (rel = [] \<or> list_all simpleName (splitSlash rel))"



subsection \<open>Notions for the order of the loads\<close>


fun parentsFirst :: "string set \<Rightarrow> string list \<Rightarrow> bool" where
  "parentsFirst L [] = True"
| "parentsFirst L (key # keys) =
     (cleanRel key \<and> (key = [] \<or> parentRel key \<in> L) \<and> parentsFirst (insert key L) keys)"





section \<open>\<open>cache.get\<close> called by several goroutines\<close>

text \<open>
  Where a goroutine stands inside \<open>cache.get\<close>: before the optimistic
  \<open>Load\<close>; before \<open>LoadOrStore\<close>, after a \<open>Load\<close> that found nothing; at the
  receive from \<open>doneC\<close> of an entry it found in the map; before the call of
  the loader, with its own entry stored in the map; or returned with a result.
\<close>

datatype 'i position =
    AtLoad
  | AtLoadOrStore
  | AtReceive
  | AtLoadCall
  | Returned 'i "error option"

text \<open>
  What the goroutines share: the map, the goroutines with the key each one
  called \<open>get\<close> with, and a record of the calls of the loader, in order: the
  key of each call with what the loader returned.
\<close>

record 'i shared =
  entryMap :: "'i cache"
  goroutines :: "(string \<times> 'i position) list"
  loadCalls :: "(string \<times> 'i \<times> error option) list"

definition moveTo :: "nat \<Rightarrow> 'i position \<Rightarrow> 'i shared \<Rightarrow> 'i shared" where
  "moveTo n pos s = s\<lparr>goroutines := (goroutines s)[n := (fst (goroutines s ! n), pos)]\<rparr>"

text \<open>
  One atomic step of the goroutine number \<open>n\<close>. The operations of \<open>sync.Map\<close>
  are atomic, and so is a step here: \<open>Load\<close>; \<open>LoadOrStore\<close>, which stores the
  new pending entry only when the key has none; the receive, which goes
  through once the channel is closed and waits (no step) until then; and the
  call of the loader with the closing of the channel, taken together, since
  nobody reads \<open>info\<close> and \<open>err\<close> of an entry before its channel is closed. An
  entry is never replaced in the map, so the entry a goroutine found under its
  key is the one that is there. The loader is any function of the key and of
  what is shared at that moment.
\<close>

definition stepGoroutine ::
  "(string \<Rightarrow> 'i shared \<Rightarrow> 'i \<times> error option) \<Rightarrow> nat \<Rightarrow> 'i shared \<Rightarrow> 'i shared" where
  "stepGoroutine load n s =
     (if length (goroutines s) \<le> n then s
      else (let key = fst (goroutines s ! n) in
            case snd (goroutines s ! n) of
              AtLoad \<Rightarrow>
                (case entryMap s key of
                   None \<Rightarrow> moveTo n AtLoadOrStore s
                 | Some e \<Rightarrow> moveTo n AtReceive s)
            | AtLoadOrStore \<Rightarrow>
                (case entryMap s key of
                   None \<Rightarrow> (moveTo n AtLoadCall s)\<lparr>entryMap := (entryMap s)(key \<mapsto> Pending)\<rparr>
                 | Some e \<Rightarrow> moveTo n AtReceive s)
            | AtReceive \<Rightarrow>
                (case entryMap s key of
                   Some (Resolved info err) \<Rightarrow> moveTo n (Returned info err) s
                 | _ \<Rightarrow> s)
            | AtLoadCall \<Rightarrow>
                (let r = load key s in
                 (moveTo n (Returned (fst r) (snd r)) s)
                   \<lparr>entryMap := (entryMap s)(key \<mapsto> Resolved (fst r) (snd r)),
                    loadCalls := loadCalls s @ [(key, r)]\<rparr>)
            | Returned info err \<Rightarrow> s))"

text \<open>
  A run: the schedule says which goroutine takes the next step. The start:
  an empty cache and one goroutine for each call of \<open>get\<close>, with its key.
  \<open>coversAll n xs\<close>: in the schedule \<open>xs\<close> each of the \<open>n\<close> goroutines gets
  at least one turn; such a schedule is a round.
\<close>

fun runGoroutines ::
  "(string \<Rightarrow> 'i shared \<Rightarrow> 'i \<times> error option) \<Rightarrow> nat list \<Rightarrow> 'i shared \<Rightarrow> 'i shared" where
  "runGoroutines load [] s = s"
| "runGoroutines load (n # schedule) s = runGoroutines load schedule (stepGoroutine load n s)"

definition startGoroutines :: "string list \<Rightarrow> 'i shared" where
  "startGoroutines keys =
     \<lparr>entryMap = Map.empty, goroutines = map (\<lambda>key. (key, AtLoad)) keys, loadCalls = []\<rparr>"

definition coversAll :: "nat \<Rightarrow> nat list \<Rightarrow> bool" where
  "coversAll n xs = list_all (\<lambda>i. i \<in> set xs) [0..<n]"

text \<open>
  The invariant of the runs, in six parts: a goroutine about to call the
  loader has its pending entry in the map; it is the only one about to do so
  for its key; the loader has been called with distinct keys, and the resolved
  entries are those of the calls, each holding what its call returned; a
  goroutine that has returned holds what the entry of its key holds; a
  goroutine at the receive has found an entry; and for a pending entry some
  goroutine is about to call the loader.
\<close>

definition callerHasPending :: "'i shared \<Rightarrow> bool" where
  "callerHasPending s =
     (\<forall>n < length (goroutines s). snd (goroutines s ! n) = AtLoadCall \<longrightarrow>
         entryMap s (fst (goroutines s ! n)) = Some Pending)"

definition oneCallerPerKey :: "'i shared \<Rightarrow> bool" where
  "oneCallerPerKey s =
     (\<forall>m < length (goroutines s). \<forall>n < length (goroutines s).
         snd (goroutines s ! m) = AtLoadCall \<and> snd (goroutines s ! n) = AtLoadCall \<and>
         fst (goroutines s ! m) = fst (goroutines s ! n) \<longrightarrow> m = n)"

definition calledOnce :: "'i shared \<Rightarrow> bool" where
  "calledOnce s =
     (distinct (map fst (loadCalls s)) \<and>
      (\<forall>key info err. (entryMap s key = Some (Resolved info err))
                         = ((key, info, err) \<in> set (loadCalls s))))"

definition returnedFromEntry :: "'i shared \<Rightarrow> bool" where
  "returnedFromEntry s =
     (\<forall>n < length (goroutines s). \<forall>info err.
         snd (goroutines s ! n) = Returned info err \<longrightarrow>
         entryMap s (fst (goroutines s ! n)) = Some (Resolved info err))"

definition waiterHasEntry :: "'i shared \<Rightarrow> bool" where
  "waiterHasEntry s =
     (\<forall>n < length (goroutines s). snd (goroutines s ! n) = AtReceive \<longrightarrow>
         entryMap s (fst (goroutines s ! n)) \<noteq> None)"

definition pendingHasCaller :: "'i shared \<Rightarrow> bool" where
  "pendingHasCaller s =
     (\<forall>key. entryMap s key = Some Pending \<longrightarrow>
         (\<exists>n < length (goroutines s). goroutines s ! n = (key, AtLoadCall)))"

definition singleFlight :: "'i shared \<Rightarrow> bool" where
  "singleFlight s =
     (callerHasPending s \<and> oneCallerPerKey s \<and> calledOnce s \<and> returnedFromEntry s \<and>
      waiterHasEntry s \<and> pendingHasCaller s)"

text \<open>
  A bound on the steps that the goroutine \<open>n\<close> still has to take before it
  has returned, the steps in which it waits at the receive not counted: the
  measure of the progress of the runs.
\<close>

definition stepsLeft :: "'i shared \<Rightarrow> nat \<Rightarrow> nat" where
  "stepsLeft s n =
     (case snd (goroutines s ! n) of
        AtLoad \<Rightarrow> 4
      | AtLoadOrStore \<Rightarrow> 3
      | AtReceive \<Rightarrow>
          (case entryMap s (fst (goroutines s ! n)) of
             Some (Resolved info err) \<Rightarrow> 1
           | _ \<Rightarrow> 2)
      | AtLoadCall \<Rightarrow> 1
      | Returned info err \<Rightarrow> 0)"

section \<open>Example inputs\<close>

text \<open>
  A glob library for the examples: a pattern matches the name equal to it,
  and a pattern with an opening bracket is malformed.
\<close>

definition exampleGlob :: doublestar where
  "exampleGlob =
     \<lparr>Match = (\<lambda>pattern name.
         (pattern = name,
          if ContainsAny pattern ''['' then Some (Error ''syntax error in pattern'') else None)),
      MatchUnvalidated = (\<lambda>pattern name. pattern = name)\<rparr>"

definition exampleConfig :: Config where
  "exampleConfig =
     \<lparr>RepoRoot = ''/repo'', ReadBuildFilesDir = [],
      Exts = \<lparr>updateOnly = False, excludes = [''vendor''], ignore = True, follow = []\<rparr>\<rparr>"

definition exampleFile :: ruleFile where
  "exampleFile =
     \<lparr>Pkg = ''sub'',
      Directives =
        [\<lparr>Key = ''exclude'', Value = ''[''\<rparr>,
         \<lparr>Key = ''exclude'', Value = ''gen''\<rparr>,
         \<lparr>Key = ''generation_mode'', Value = ''update_only''\<rparr>,
         \<lparr>Key = ''follow'', Value = ''link''\<rparr>,
         \<lparr>Key = ''ignore'', Value = []\<rparr>]\<rparr>"

text \<open>
  A repository for the examples: the root with a build file and the
  directories \<open>a\<close> and \<open>sub\<close>; \<open>a\<close> with a build file that does not parse,
  a source file and the empty directory \<open>b\<close>; \<open>sub\<close> with a build file that
  excludes the directory itself, and a directory below it.
\<close>

definition exampleEntries :: "string \<Rightarrow> dirEntry list \<times> error option" where
  "exampleEntries dir =
     (if dir = ''/repo'' then
        ([\<lparr>Name = ''BUILD.bazel'', IsDir = False\<rparr>, \<lparr>Name = ''a'', IsDir = True\<rparr>,
          \<lparr>Name = ''sub'', IsDir = True\<rparr>], None)
      else if dir = ''/repo/a'' then
        ([\<lparr>Name = ''BUILD.bazel'', IsDir = False\<rparr>, \<lparr>Name = ''a.proto'', IsDir = False\<rparr>,
          \<lparr>Name = ''b'', IsDir = True\<rparr>], None)
      else if dir = ''/repo/a/b'' then ([], None)
      else if dir = ''/repo/sub'' then
        ([\<lparr>Name = ''BUILD.bazel'', IsDir = False\<rparr>, \<lparr>Name = ''below'', IsDir = True\<rparr>], None)
      else if dir = ''/repo/sub/below'' then ([\<lparr>Name = ''BUILD.bazel'', IsDir = False\<rparr>], None)
      else ([], Some (Error ''no such file or directory'')))"

definition exampleBuildFiles :: "string \<Rightarrow> ruleFile option \<times> error option" where
  "exampleBuildFiles rel =
     (if rel = [] then (Some \<lparr>Pkg = [], Directives = []\<rparr>, None)
      else if rel = ''a'' then (None, Some (Error ''a/BUILD.bazel: syntax error''))
      else if rel = ''sub'' then
        (Some \<lparr>Pkg = ''sub'', Directives = [\<lparr>Key = ''exclude'', Value = ''.''\<rparr>]\<rparr>, None)
      else (None, None))"

definition exampleWalker :: walker where
  "exampleWalker =
     \<lparr>rootConfig = exampleConfig,
      ReadDir = exampleEntries,
      loadBuildFile = (\<lambda>pc readDir rel dir entries. exampleBuildFiles rel),
      configureForWalk = (\<lambda>pc rel f.
         map_sum id snd
           (applyDirectives exampleGlob rel rel ([], pc\<lparr>ignore := False\<rparr>) (fileDirectives f))),
      isExcludedDir = isExcluded exampleGlob,
      isExcludedFile = isExcluded exampleGlob,
      maybeResolveSymlink = (\<lambda>cfg dir entryRel e. e),
      findGenFiles = (\<lambda>cfg f. [])\<rparr>"



text \<open>The cache after the root directory of the example has been loaded.\<close>

definition exampleRootInfo :: DirInfo where
  "exampleRootInfo =
     \<lparr>Subdirs = [''a'', ''sub''], RegularFiles = [''BUILD.bazel''], GenFiles = [],
      File = Some \<lparr>Pkg = [], Directives = []\<rparr>,
      config = \<lparr>updateOnly = False, excludes = [''vendor''], ignore = False, follow = []\<rparr>\<rparr>"

definition exampleCache :: "DirInfo cache" where
  "exampleCache = Map.empty([] \<mapsto> Resolved exampleRootInfo None)"

text \<open>
  Two loaders for the cache examples. The world is a counter of loads. The
  first loader stores the number of loads before it; the second one panics
  whenever it runs.
\<close>

definition countingLoad :: "string \<Rightarrow> nat cache \<Rightarrow> nat \<Rightarrow> abort + (nat \<times> error option) \<times> nat" where
  "countingLoad key c n = Inr ((n, None), Suc n)"

definition panickingLoad :: "string \<Rightarrow> nat cache \<Rightarrow> nat \<Rightarrow> abort + (nat \<times> error option) \<times> nat" where
  "panickingLoad key c n = Inl (PanicNotLoaded key)"

section \<open>Properties of \<open>Configure\<close>\<close>

lemma validPatterns_Cons:
  "validPatterns ds rel key (d # rest)
     = validPatterns ds rel key [d] @ validPatterns ds rel key rest"
  by (simp add: validPatterns_def)

lemma lastGenerationMode_Cons:
  "lastGenerationMode (d # rest) b = lastGenerationMode rest (lastGenerationMode [d] b)"
  by (simp add: lastGenerationMode_def split: list.splits)

lemma applyDirective_excludes:
  "applyDirective ds rel pkg (lg, wc) d = Inr (lg', wc') \<Longrightarrow>
   excludes wc' = excludes wc @ validPatterns ds rel ''exclude'' [d]"
  by (auto simp: applyDirective_def validPatterns_def Let_def split: if_splits option.splits)

lemma applyDirective_follow:
  "applyDirective ds rel pkg (lg, wc) d = Inr (lg', wc') \<Longrightarrow>
   follow wc' = follow wc @ validPatterns ds rel ''follow'' [d]"
  by (auto simp: applyDirective_def validPatterns_def Let_def split: if_splits option.splits)

lemma applyDirective_ignore:
  "applyDirective ds rel pkg (lg, wc) d = Inr (lg', wc') \<Longrightarrow>
   ignore wc' = (ignore wc \<or> Key d = ''ignore'')"
  by (auto simp: applyDirective_def Let_def split: if_splits option.splits)

lemma applyDirective_updateOnly:
  "applyDirective ds rel pkg (lg, wc) d = Inr (lg', wc') \<Longrightarrow>
   updateOnly wc' = lastGenerationMode [d] (updateOnly wc)"
  by (auto simp: applyDirective_def lastGenerationMode_def Let_def split: if_splits option.splits)

text \<open>
  The loop over the directives, from any state: what it has done to each
  field of the configuration when it ends without a fatal error.
\<close>

lemma applyDirectives_fields:
  "applyDirectives ds rel pkg (lg, wc) dirs = Inr (lg', wc') \<Longrightarrow>
   excludes wc' = excludes wc @ validPatterns ds rel ''exclude'' dirs \<and>
   follow wc' = follow wc @ validPatterns ds rel ''follow'' dirs \<and>
   ignore wc' = (ignore wc \<or> list_ex (\<lambda>d. Key d = ''ignore'') dirs) \<and>
   updateOnly wc' = lastGenerationMode dirs (updateOnly wc)"
proof (induction dirs arbitrary: lg wc)
  case Nil
  then show ?case by (simp add: validPatterns_def lastGenerationMode_def)
next
  case (Cons d rest)
  from Cons.prems obtain lg1 wc1 where
    step: "applyDirective ds rel pkg (lg, wc) d = Inr (lg1, wc1)" and
    loop: "applyDirectives ds rel pkg (lg1, wc1) rest = Inr (lg', wc')"
    by (auto split: sum.splits)
  note ih = Cons.IH [OF loop]
  have e: "excludes wc' = excludes wc @ validPatterns ds rel ''exclude'' (d # rest)"
    using ih applyDirective_excludes [OF step]
    by (simp add: validPatterns_Cons [of ds rel _ d rest])
  have f: "follow wc' = follow wc @ validPatterns ds rel ''follow'' (d # rest)"
    using ih applyDirective_follow [OF step]
    by (simp add: validPatterns_Cons [of ds rel _ d rest])
  have i: "ignore wc' = (ignore wc \<or> list_ex (\<lambda>d. Key d = ''ignore'') (d # rest))"
    using ih applyDirective_ignore [OF step] by auto
  have u: "updateOnly wc' = lastGenerationMode (d # rest) (updateOnly wc)"
    using ih applyDirective_updateOnly [OF step]
    by (simp add: lastGenerationMode_Cons [of d rest])
  from e f i u show ?case by blast
qed

lemma applyDirectives_append:
  "applyDirectives ds rel pkg st (pre @ post) =
     (case applyDirectives ds rel pkg st pre of
        Inl a \<Rightarrow> Inl a
      | Inr st' \<Rightarrow> applyDirectives ds rel pkg st' post)"
  by (induction pre arbitrary: st) (auto split: sum.splits)

text \<open>
  \<open>Configure\<close> returns exactly when every \<open>generation_mode\<close> directive of the
  file has one of the two known values.
\<close>

lemma applyDirectives_returns_iff:
  "(\<exists>st'. applyDirectives ds rel pkg st dirs = Inr st')
     = list_all (\<lambda>d. Key d = ''generation_mode'' \<longrightarrow>
          TrimSpace (Value d) = ''update_only'' \<or> TrimSpace (Value d) = ''create_and_update'') dirs"
proof (induction dirs arbitrary: st)
  case Nil
  show ?case by simp
next
  case (Cons d rest)
  show ?case
  proof (cases "applyDirective ds rel pkg st d")
    case (Inl a)
    then have "\<not> (Key d = ''generation_mode'' \<longrightarrow>
          TrimSpace (Value d) = ''update_only'' \<or> TrimSpace (Value d) = ''create_and_update'')"
      by (auto simp: applyDirective_def Let_def split: if_splits option.splits)
    with Inl show ?thesis by simp
  next
    case (Inr st1)
    then have "Key d = ''generation_mode'' \<longrightarrow>
          TrimSpace (Value d) = ''update_only'' \<or> TrimSpace (Value d) = ''create_and_update''"
      by (auto simp: applyDirective_def Let_def split: if_splits option.splits)
    with Inr Cons.IH [of st1] show ?thesis by simp
  qed
qed

lemma Configure_returns_iff:
  "(\<exists>r. Configure ds c rel f = Inr r)
     = list_all (\<lambda>d. Key d = ''generation_mode'' \<longrightarrow>
          TrimSpace (Value d) = ''update_only'' \<or> TrimSpace (Value d) = ''create_and_update'')
         (fileDirectives f)"
proof (cases f)
  case None
  then show ?thesis by (simp add: Configure_def storeExts_def fileDirectives_def)
next
  case (Some fl)
  have fd: "fileDirectives f = Directives fl"
    using Some by (simp add: fileDirectives_def)
  have "(\<exists>r. Configure ds c rel f = Inr r)
          = (\<exists>st'. applyDirectives ds rel (Pkg fl) ([], (getWalkConfig c)\<lparr>ignore := False\<rparr>)
                     (Directives fl) = Inr st')"
    using Some
    by (cases "applyDirectives ds rel (Pkg fl) ([], (getWalkConfig c)\<lparr>ignore := False\<rparr>) (Directives fl)")
       (simp_all add: Configure_def storeExts_def)
  also have "\<dots> = list_all (\<lambda>d. Key d = ''generation_mode'' \<longrightarrow>
          TrimSpace (Value d) = ''update_only'' \<or> TrimSpace (Value d) = ''create_and_update'')
         (Directives fl)"
    by (rule applyDirectives_returns_iff)
  finally show ?thesis
    unfolding fd .
qed

text \<open>
  Claim C1. Whenever \<open>Configure\<close> returns, the walk configuration it leaves in
  \<open>c\<close> is the parent's with the directives of the build file applied in file
  order: the parent's \<open>excludes\<close> and \<open>follow\<close> come first and the valid
  patterns of the file, each joined with \<open>rel\<close>, are appended to them in
  order; \<open>ignore\<close> is true exactly when the file has an \<open>ignore\<close> directive,
  whatever the parent's value; \<open>updateOnly\<close> is what the last
  \<open>generation_mode\<close> directive says and the parent's value when there is
  none; and with no build file the result is the parent's configuration with
  \<open>ignore\<close> false.
\<close>

theorem Configure_child_config:
  assumes "Configure ds c rel f = Inr (lg, c')"
  shows "excludes (getWalkConfig c')
           = excludes (getWalkConfig c) @ validPatterns ds rel ''exclude'' (fileDirectives f) \<and>
         follow (getWalkConfig c')
           = follow (getWalkConfig c) @ validPatterns ds rel ''follow'' (fileDirectives f) \<and>
         ignore (getWalkConfig c') = list_ex (\<lambda>d. Key d = ''ignore'') (fileDirectives f) \<and>
         updateOnly (getWalkConfig c')
           = lastGenerationMode (fileDirectives f) (updateOnly (getWalkConfig c)) \<and>
         (f = None \<longrightarrow> getWalkConfig c' = (getWalkConfig c)\<lparr>ignore := False\<rparr>)"
proof (cases f)
  case None
  with assms have "getWalkConfig c' = (getWalkConfig c)\<lparr>ignore := False\<rparr>"
    by (auto simp: Configure_def storeExts_def getWalkConfig_def)
  with None show ?thesis
    by (simp add: fileDirectives_def validPatterns_def lastGenerationMode_def)
next
  case (Some fl)
  with assms obtain wc' where
    run: "applyDirectives ds rel (Pkg fl) ([], (getWalkConfig c)\<lparr>ignore := False\<rparr>) (Directives fl)
            = Inr (lg, wc')"
    and c': "c' = c\<lparr>Exts := wc'\<rparr>"
    by (cases "applyDirectives ds rel (Pkg fl) ([], (getWalkConfig c)\<lparr>ignore := False\<rparr>) (Directives fl)")
       (auto simp: Configure_def storeExts_def)
  from c' have "getWalkConfig c' = wc'" by (simp add: getWalkConfig_def)
  with applyDirectives_fields [OF run] Some show ?thesis
    by (simp add: fileDirectives_def)
qed

theorem Configure_child_config_witness:
  "Configure exampleGlob exampleConfig ''sub'' (Some exampleFile)
     = Inr ([ExclusionPatternNotValid ''sub/['' (Error ''syntax error in pattern'')],
            exampleConfig\<lparr>Exts := \<lparr>updateOnly = True, excludes = [''vendor'', ''sub/gen''],
                                    ignore = True, follow = [''sub/link'']\<rparr>\<rparr>) \<and>
   excludes (getWalkConfig (exampleConfig\<lparr>Exts := \<lparr>updateOnly = True,
        excludes = [''vendor'', ''sub/gen''], ignore = True, follow = [''sub/link'']\<rparr>\<rparr>))
     = excludes (getWalkConfig exampleConfig)
         @ validPatterns exampleGlob ''sub'' ''exclude'' (fileDirectives (Some exampleFile))"
proof -
  have run: "Configure exampleGlob exampleConfig ''sub'' (Some exampleFile)
     = Inr ([ExclusionPatternNotValid ''sub/['' (Error ''syntax error in pattern'')],
            exampleConfig\<lparr>Exts := \<lparr>updateOnly = True, excludes = [''vendor'', ''sub/gen''],
                                    ignore = True, follow = [''sub/link'']\<rparr>\<rparr>)"
    by code_simp
  from Configure_child_config [OF run] run show ?thesis by blast
qed

text \<open>
  The log given to the loop is only ever extended: the loop from a log \<open>lg\<close>
  does what it does from the empty log, with \<open>lg\<close> in front of what it
  writes.
\<close>

lemma applyDirective_log:
  "applyDirective ds rel pkg (lg, wc) d
     = map_sum id (\<lambda>st. (lg @ fst st, snd st)) (applyDirective ds rel pkg ([], wc) d)"
  by (simp add: applyDirective_def Let_def split: option.splits)

lemma applyDirectives_log:
  "applyDirectives ds rel pkg (lg, wc) dirs
     = map_sum id (\<lambda>st. (lg @ fst st, snd st)) (applyDirectives ds rel pkg ([], wc) dirs)"
proof (induction dirs arbitrary: lg wc)
  case Nil
  show ?case by simp
next
  case (Cons d rest)
  show ?case
  proof (cases "applyDirective ds rel pkg ([], wc) d")
    case (Inl a)
    then show ?thesis
      by (simp add: applyDirective_log [of ds rel pkg lg wc d])
  next
    case (Inr st1)
    obtain l1 wc1 where st1: "st1 = (l1, wc1)" by (cases st1) auto
    have a: "applyDirectives ds rel pkg (lg, wc) (d # rest)
               = applyDirectives ds rel pkg (lg @ l1, wc1) rest"
      using Inr st1 by (simp add: applyDirective_log [of ds rel pkg lg wc d])
    have b: "applyDirectives ds rel pkg ([], wc) (d # rest) = applyDirectives ds rel pkg (l1, wc1) rest"
      using Inr st1 by simp
    show ?thesis
      unfolding a b
      by (subst Cons.IH [of "lg @ l1" wc1], subst Cons.IH [of l1 wc1])
         (cases "applyDirectives ds rel pkg ([], wc1) rest"; simp)
  qed
qed

lemma applyDirectives_fatal:
  "applyDirectives ds rel pkg st dirs = Inl a \<Longrightarrow> \<exists>v. a = UnknownGenerationMode v pkg"
proof (induction dirs arbitrary: st)
  case Nil
  then show ?case by simp
next
  case (Cons d rest)
  show ?case
  proof (cases "applyDirective ds rel pkg st d")
    case (Inl b)
    with Cons.prems have "a = b" by simp
    with Inl show ?thesis
      by (auto simp: applyDirective_def Let_def split: if_splits option.splits)
  next
    case (Inr st1)
    with Cons.prems Cons.IH [of st1] show ?thesis by simp
  qed
qed

lemma validPatterns_append:
  "validPatterns ds rel key (xs @ ys) = validPatterns ds rel key xs @ validPatterns ds rel key ys"
  by (simp add: validPatterns_def)

lemma lastGenerationMode_if:
  "lastGenerationMode dirs b
     = (if filter (\<lambda>d. Key d = ''generation_mode'') dirs = [] then b
        else TrimSpace (Value (last (filter (\<lambda>d. Key d = ''generation_mode'') dirs)))
               = ''update_only'')"
  by (cases "filter (\<lambda>d. Key d = ''generation_mode'') dirs")
     (simp_all add: lastGenerationMode_def)

lemma lastGenerationMode_append:
  "lastGenerationMode (xs @ ys) b = lastGenerationMode ys (lastGenerationMode xs b)"
  by (simp add: lastGenerationMode_if)

lemma lastGenerationMode_none:
  "\<not> list_ex (\<lambda>x. Key x = ''generation_mode'') dirs \<Longrightarrow> lastGenerationMode dirs b = b"
  by (simp add: lastGenerationMode_def list_ex_iff filter_empty_conv [THEN iffD2])

lemma Configure_file_loop:
  "Configure ds c rel (Some fl)
     = storeExts c (applyDirectives ds rel (Pkg fl) ([], (getWalkConfig c)\<lparr>ignore := False\<rparr>)
                      (Directives fl))"
  by (simp add: Configure_def)

lemma storeExts_Inr:
  "storeExts c r = Inr (lg, c') \<Longrightarrow> r = Inr (lg, getWalkConfig c')"
  by (cases r) (auto simp: storeExts_def getWalkConfig_def)

text \<open>
  Claim C6, as amended. Let \<open>d\<close> be a directive of the build file, \<open>pre\<close> the
  directives before it and \<open>post\<close> those after it. If \<open>d\<close> is a
  \<open>generation_mode\<close> directive whose value, trimmed, is \<open>update_only\<close> and no
  later directive sets the mode again, the configuration that \<open>Configure\<close>
  leaves has \<open>updateOnly\<close> true; with \<open>create_and_update\<close> it has
  \<open>updateOnly\<close> false. If the trimmed value is neither, \<open>Configure\<close> ends with
  the fatal error, whatever the other directives are; the error names the
  value of \<open>d\<close> when no \<open>generation_mode\<close> directive comes before it. If \<open>d\<close>
  is an \<open>exclude\<close> or \<open>follow\<close> directive whose joined pattern is not valid,
  \<open>Configure\<close> ends as it does on the file without \<open>d\<close>, with the same
  configuration; when it returns, the line about the pattern is in the log,
  and \<open>excludes\<close> and \<open>follow\<close> of the configuration it leaves are the
  parent's followed by the valid patterns of the other directives.
\<close>

theorem generation_mode_fatal_bad_pattern_skipped:
  assumes fl: "Directives fl = pre @ d # post"
  shows "(Key d = ''generation_mode'' \<and> TrimSpace (Value d) = ''update_only''
            \<and> \<not> list_ex (\<lambda>x. Key x = ''generation_mode'') post
            \<and> Configure ds c rel (Some fl) = Inr (lg, c') \<longrightarrow>
            updateOnly (getWalkConfig c')) \<and>
         (Key d = ''generation_mode'' \<and> TrimSpace (Value d) = ''create_and_update''
            \<and> \<not> list_ex (\<lambda>x. Key x = ''generation_mode'') post
            \<and> Configure ds c rel (Some fl) = Inr (lg, c') \<longrightarrow>
            \<not> updateOnly (getWalkConfig c')) \<and>
         (Key d = ''generation_mode'' \<and> TrimSpace (Value d) \<noteq> ''update_only''
            \<and> TrimSpace (Value d) \<noteq> ''create_and_update'' \<longrightarrow>
            (\<exists>v. Configure ds c rel (Some fl) = Inl (UnknownGenerationMode v (Pkg fl))) \<and>
            (\<not> list_ex (\<lambda>x. Key x = ''generation_mode'') pre \<longrightarrow>
               Configure ds c rel (Some fl) = Inl (UnknownGenerationMode (Value d) (Pkg fl)))) \<and>
         ((Key d = ''exclude'' \<or> Key d = ''follow'')
            \<and> checkPathMatchPattern ds (Join rel (Value d)) = Some err \<longrightarrow>
            map_sum id snd (Configure ds c rel (Some fl))
              = map_sum id snd (Configure ds c rel (Some (fl\<lparr>Directives := pre @ post\<rparr>))) \<and>
            (Configure ds c rel (Some fl) = Inr (lg, c') \<longrightarrow>
               (if Key d = ''exclude'' then ExclusionPatternNotValid (Join rel (Value d)) err
                else FollowPatternNotValid (Join rel (Value d)) err) \<in> set lg \<and>
               excludes (getWalkConfig c')
                 = excludes (getWalkConfig c) @ validPatterns ds rel ''exclude'' (pre @ post) \<and>
               follow (getWalkConfig c')
                 = follow (getWalkConfig c) @ validPatterns ds rel ''follow'' (pre @ post)))"
proof -
  define wc0 where "wc0 = (getWalkConfig c)\<lparr>ignore := False\<rparr>"
  have run: "Configure ds c rel (Some fl)
               = storeExts c (applyDirectives ds rel (Pkg fl) ([], wc0) (pre @ d # post))"
    by (simp add: Configure_file_loop fl wc0_def)
  have fields: "excludes (getWalkConfig c')
                  = excludes (getWalkConfig c) @ validPatterns ds rel ''exclude'' (pre @ d # post) \<and>
                follow (getWalkConfig c')
                  = follow (getWalkConfig c) @ validPatterns ds rel ''follow'' (pre @ d # post) \<and>
                updateOnly (getWalkConfig c')
                  = lastGenerationMode (pre @ d # post) (updateOnly (getWalkConfig c))"
    if "Configure ds c rel (Some fl) = Inr (lg, c')"
  proof -
    from that have "applyDirectives ds rel (Pkg fl) ([], wc0) (pre @ d # post)
                      = Inr (lg, getWalkConfig c')"
      unfolding run by (rule storeExts_Inr)
    from applyDirectives_fields [OF this] show ?thesis
      by (simp add: wc0_def)
  qed
  have mode: "updateOnly (getWalkConfig c') = (TrimSpace (Value d) = ''update_only'')"
    if "Key d = ''generation_mode''" "\<not> list_ex (\<lambda>x. Key x = ''generation_mode'') post"
       "Configure ds c rel (Some fl) = Inr (lg, c')"
  proof -
    have "lastGenerationMode (pre @ d # post) b = lastGenerationMode [d] (lastGenerationMode pre b)" for b
      using that(2)
      by (simp add: lastGenerationMode_append [of pre "d # post"]
            lastGenerationMode_Cons [of d post] lastGenerationMode_none)
    with that(1) fields [OF that(3)] show ?thesis
      by (simp add: lastGenerationMode_def)
  qed
  have unknown: "(\<exists>v. Configure ds c rel (Some fl) = Inl (UnknownGenerationMode v (Pkg fl))) \<and>
            (\<not> list_ex (\<lambda>x. Key x = ''generation_mode'') pre \<longrightarrow>
               Configure ds c rel (Some fl) = Inl (UnknownGenerationMode (Value d) (Pkg fl)))"
    if k: "Key d = ''generation_mode''" and u: "TrimSpace (Value d) \<noteq> ''update_only''"
      and v: "TrimSpace (Value d) \<noteq> ''create_and_update''"
  proof -
    have step: "applyDirective ds rel (Pkg fl) st d = Inl (UnknownGenerationMode (Value d) (Pkg fl))" for st
      using k u v by (simp add: applyDirective_def Let_def)
    show ?thesis
    proof (cases "applyDirectives ds rel (Pkg fl) ([], wc0) pre")
      case (Inl a)
      from applyDirectives_fatal [OF Inl] obtain x where "a = UnknownGenerationMode x (Pkg fl)" ..
      with Inl have e: "Configure ds c rel (Some fl) = Inl (UnknownGenerationMode x (Pkg fl))"
        unfolding run by (simp add: applyDirectives_append storeExts_def)
      have "list_ex (\<lambda>x. Key x = ''generation_mode'') pre"
      proof (rule ccontr)
        assume "\<not> list_ex (\<lambda>x. Key x = ''generation_mode'') pre"
        then have "list_all (\<lambda>d. Key d = ''generation_mode'' \<longrightarrow>
            TrimSpace (Value d) = ''update_only'' \<or> TrimSpace (Value d) = ''create_and_update'') pre"
          by (auto simp: list_ex_iff list_all_iff)
        with applyDirectives_returns_iff [of ds rel "Pkg fl" "([], wc0)" pre] Inl
        show False by simp
      qed
      with e show ?thesis by blast
    next
      case (Inr st1)
      with step [of st1] have "Configure ds c rel (Some fl)
          = Inl (UnknownGenerationMode (Value d) (Pkg fl))"
        unfolding run by (simp add: applyDirectives_append storeExts_def)
      then show ?thesis by blast
    qed
  qed
  have bad: "map_sum id snd (Configure ds c rel (Some fl))
              = map_sum id snd (Configure ds c rel (Some (fl\<lparr>Directives := pre @ post\<rparr>))) \<and>
            (Configure ds c rel (Some fl) = Inr (lg, c') \<longrightarrow>
               (if Key d = ''exclude'' then ExclusionPatternNotValid (Join rel (Value d)) err
                else FollowPatternNotValid (Join rel (Value d)) err) \<in> set lg \<and>
               excludes (getWalkConfig c')
                 = excludes (getWalkConfig c) @ validPatterns ds rel ''exclude'' (pre @ post) \<and>
               follow (getWalkConfig c')
                 = follow (getWalkConfig c) @ validPatterns ds rel ''follow'' (pre @ post))"
    if k: "Key d = ''exclude'' \<or> Key d = ''follow''"
      and e: "checkPathMatchPattern ds (Join rel (Value d)) = Some err"
  proof -
    define msg where "msg = (if Key d = ''exclude'' then ExclusionPatternNotValid (Join rel (Value d)) err
                else FollowPatternNotValid (Join rel (Value d)) err)"
    have step: "applyDirective ds rel (Pkg fl) (l, wc) d = Inr (l @ [msg], wc)" for l wc
      using k e by (auto simp: applyDirective_def Let_def msg_def)
    have other: "Configure ds c rel (Some (fl\<lparr>Directives := pre @ post\<rparr>))
               = storeExts c (applyDirectives ds rel (Pkg fl) ([], wc0) (pre @ post))"
      by (simp add: Configure_file_loop wc0_def)
    have none: "validPatterns ds rel key [d] = []" if "key = ''exclude'' \<or> key = ''follow''" for key
      using that k e by (auto simp: validPatterns_def)
    have same: "map_sum id snd (Configure ds c rel (Some fl))
              = map_sum id snd (Configure ds c rel (Some (fl\<lparr>Directives := pre @ post\<rparr>)))"
    proof (cases "applyDirectives ds rel (Pkg fl) ([], wc0) pre")
      case (Inl a)
      then show ?thesis
        unfolding run other by (simp add: applyDirectives_append)
    next
      case (Inr st1)
      obtain l1 wc1 where st1: "st1 = (l1, wc1)" by (cases st1) auto
      have a: "applyDirectives ds rel (Pkg fl) ([], wc0) (pre @ d # post)
                 = applyDirectives ds rel (Pkg fl) (l1 @ [msg], wc1) post"
        using Inr st1 step [of l1 wc1] by (simp add: applyDirectives_append)
      have b: "applyDirectives ds rel (Pkg fl) ([], wc0) (pre @ post)
                 = applyDirectives ds rel (Pkg fl) (l1, wc1) post"
        using Inr st1 by (simp add: applyDirectives_append)
      show ?thesis
        unfolding run other a b
        by (subst applyDirectives_log [of ds rel "Pkg fl" "l1 @ [msg]" wc1 post],
            subst applyDirectives_log [of ds rel "Pkg fl" l1 wc1 post])
           (cases "applyDirectives ds rel (Pkg fl) ([], wc1) post"; simp add: storeExts_def)
    qed
    have logged: "msg \<in> set lg" if r: "Configure ds c rel (Some fl) = Inr (lg, c')"
    proof -
      from r have all: "applyDirectives ds rel (Pkg fl) ([], wc0) (pre @ d # post)
                      = Inr (lg, getWalkConfig c')"
        unfolding run by (rule storeExts_Inr)
      then obtain st1 where p: "applyDirectives ds rel (Pkg fl) ([], wc0) pre = Inr st1"
        by (cases "applyDirectives ds rel (Pkg fl) ([], wc0) pre")
           (simp_all add: applyDirectives_append)
      obtain l1 wc1 where st1: "st1 = (l1, wc1)" by (cases st1) auto
      from all p st1 step [of l1 wc1]
      have "applyDirectives ds rel (Pkg fl) (l1 @ [msg], wc1) post = Inr (lg, getWalkConfig c')"
        by (simp add: applyDirectives_append)
      then show ?thesis
        by (subst (asm) applyDirectives_log)
           (cases "applyDirectives ds rel (Pkg fl) ([], wc1) post"; auto)
    qed
    have "excludes (getWalkConfig c')
                 = excludes (getWalkConfig c) @ validPatterns ds rel ''exclude'' (pre @ post) \<and>
          follow (getWalkConfig c')
                 = follow (getWalkConfig c) @ validPatterns ds rel ''follow'' (pre @ post)"
      if r: "Configure ds c rel (Some fl) = Inr (lg, c')"
      using fields [OF r] none
      by (simp add: validPatterns_append [of ds rel _ pre]
            validPatterns_Cons [of ds rel _ d post])
    with same logged show ?thesis
      unfolding msg_def by blast
  qed
  have true: "updateOnly (getWalkConfig c')"
    if "Key d = ''generation_mode''" "TrimSpace (Value d) = ''update_only''"
       "\<not> list_ex (\<lambda>x. Key x = ''generation_mode'') post"
       "Configure ds c rel (Some fl) = Inr (lg, c')"
    using mode [OF that(1,3,4)] that(2) by simp
  have false: "\<not> updateOnly (getWalkConfig c')"
    if "Key d = ''generation_mode''" "TrimSpace (Value d) = ''create_and_update''"
       "\<not> list_ex (\<lambda>x. Key x = ''generation_mode'') post"
       "Configure ds c rel (Some fl) = Inr (lg, c')"
    using mode [OF that(1,3,4)] that(2) by simp
  from true false unknown bad show ?thesis
    by blast
qed

theorem generation_mode_fatal_bad_pattern_skipped_witness:
  "Configure exampleGlob exampleConfig ''sub''
       (Some \<lparr>Pkg = ''sub'',
              Directives = [\<lparr>Key = ''follow'', Value = ''link''\<rparr>,
                            \<lparr>Key = ''generation_mode'', Value = ''update_only''\<rparr>,
                            \<lparr>Key = ''exclude'', Value = ''gen''\<rparr>]\<rparr>)
     = Inr ([], exampleConfig\<lparr>Exts := \<lparr>updateOnly = True, excludes = [''vendor'', ''sub/gen''],
                                          ignore = False, follow = [''sub/link'']\<rparr>\<rparr>) \<and>
   updateOnly (getWalkConfig
      (exampleConfig\<lparr>Exts := \<lparr>updateOnly = True, excludes = [''vendor'', ''sub/gen''],
                                ignore = False, follow = [''sub/link'']\<rparr>\<rparr>)) \<and>
   Configure exampleGlob exampleConfig ''sub''
       (Some \<lparr>Pkg = ''sub'',
              Directives = [\<lparr>Key = ''generation_mode'', Value = ''update_only''\<rparr>,
                            \<lparr>Key = ''generation_mode'', Value = ''create_and_update''\<rparr>]\<rparr>)
     = Inr ([], exampleConfig\<lparr>Exts := \<lparr>updateOnly = False, excludes = [''vendor''],
                                          ignore = False, follow = []\<rparr>\<rparr>) \<and>
   \<not> updateOnly (getWalkConfig
      (exampleConfig\<lparr>Exts := \<lparr>updateOnly = False, excludes = [''vendor''],
                                ignore = False, follow = []\<rparr>\<rparr>)) \<and>
   Configure exampleGlob exampleConfig ''sub''
       (Some \<lparr>Pkg = ''sub'',
              Directives = [\<lparr>Key = ''follow'', Value = ''link''\<rparr>,
                            \<lparr>Key = ''generation_mode'', Value = ''sometimes''\<rparr>,
                            \<lparr>Key = ''exclude'', Value = ''gen''\<rparr>]\<rparr>)
     = Inl (UnknownGenerationMode ''sometimes'' ''sub'') \<and>
   Configure exampleGlob exampleConfig ''sub''
       (Some \<lparr>Pkg = ''sub'',
              Directives = [\<lparr>Key = ''follow'', Value = ''link''\<rparr>,
                            \<lparr>Key = ''exclude'', Value = ''[''\<rparr>,
                            \<lparr>Key = ''exclude'', Value = ''gen''\<rparr>]\<rparr>)
     = Inr ([ExclusionPatternNotValid ''sub/['' (Error ''syntax error in pattern'')],
            exampleConfig\<lparr>Exts := \<lparr>updateOnly = False, excludes = [''vendor'', ''sub/gen''],
                                    ignore = False, follow = [''sub/link'']\<rparr>\<rparr>) \<and>
   excludes (getWalkConfig
      (exampleConfig\<lparr>Exts := \<lparr>updateOnly = False, excludes = [''vendor'', ''sub/gen''],
                                ignore = False, follow = [''sub/link'']\<rparr>\<rparr>))
     = excludes (getWalkConfig exampleConfig)
         @ validPatterns exampleGlob ''sub'' ''exclude''
             ([\<lparr>Key = ''follow'', Value = ''link''\<rparr>] @ [\<lparr>Key = ''exclude'', Value = ''gen''\<rparr>])"
proof -
  have good: "Configure exampleGlob exampleConfig ''sub''
       (Some \<lparr>Pkg = ''sub'',
              Directives = [\<lparr>Key = ''follow'', Value = ''link''\<rparr>,
                            \<lparr>Key = ''generation_mode'', Value = ''update_only''\<rparr>,
                            \<lparr>Key = ''exclude'', Value = ''gen''\<rparr>]\<rparr>)
     = Inr ([], exampleConfig\<lparr>Exts := \<lparr>updateOnly = True, excludes = [''vendor'', ''sub/gen''],
                                          ignore = False, follow = [''sub/link'']\<rparr>\<rparr>)"
    by code_simp
  have t1: "TrimSpace ''update_only'' = ''update_only''"
    by code_simp
  have a: "updateOnly (getWalkConfig
      (exampleConfig\<lparr>Exts := \<lparr>updateOnly = True, excludes = [''vendor'', ''sub/gen''],
                                ignore = False, follow = [''sub/link'']\<rparr>\<rparr>))"
    using generation_mode_fatal_bad_pattern_skipped
      [of "\<lparr>Pkg = ''sub'',
              Directives = [\<lparr>Key = ''follow'', Value = ''link''\<rparr>,
                            \<lparr>Key = ''generation_mode'', Value = ''update_only''\<rparr>,
                            \<lparr>Key = ''exclude'', Value = ''gen''\<rparr>]\<rparr>"
          "[\<lparr>Key = ''follow'', Value = ''link''\<rparr>]"
          "\<lparr>Key = ''generation_mode'', Value = ''update_only''\<rparr>"
          "[\<lparr>Key = ''exclude'', Value = ''gen''\<rparr>]"
          exampleGlob exampleConfig "''sub''" "[]"
          "exampleConfig\<lparr>Exts := \<lparr>updateOnly = True, excludes = [''vendor'', ''sub/gen''],
                                    ignore = False, follow = [''sub/link'']\<rparr>\<rparr>"]
      good t1
    by simp
  have again: "Configure exampleGlob exampleConfig ''sub''
       (Some \<lparr>Pkg = ''sub'',
              Directives = [\<lparr>Key = ''generation_mode'', Value = ''update_only''\<rparr>,
                            \<lparr>Key = ''generation_mode'', Value = ''create_and_update''\<rparr>]\<rparr>)
     = Inr ([], exampleConfig\<lparr>Exts := \<lparr>updateOnly = False, excludes = [''vendor''],
                                          ignore = False, follow = []\<rparr>\<rparr>)"
    by code_simp
  have t3: "TrimSpace ''create_and_update'' = ''create_and_update''"
    by code_simp
  have a': "\<not> updateOnly (getWalkConfig
      (exampleConfig\<lparr>Exts := \<lparr>updateOnly = False, excludes = [''vendor''],
                                ignore = False, follow = []\<rparr>\<rparr>))"
    using generation_mode_fatal_bad_pattern_skipped
      [of "\<lparr>Pkg = ''sub'',
              Directives = [\<lparr>Key = ''generation_mode'', Value = ''update_only''\<rparr>,
                            \<lparr>Key = ''generation_mode'', Value = ''create_and_update''\<rparr>]\<rparr>"
          "[\<lparr>Key = ''generation_mode'', Value = ''update_only''\<rparr>]"
          "\<lparr>Key = ''generation_mode'', Value = ''create_and_update''\<rparr>"
          "[]"
          exampleGlob exampleConfig "''sub''" "[]"
          "exampleConfig\<lparr>Exts := \<lparr>updateOnly = False, excludes = [''vendor''],
                                    ignore = False, follow = []\<rparr>\<rparr>"]
      again t3
    by simp
  have t2: "TrimSpace ''sometimes'' = ''sometimes''"
    by code_simp
  have b: "Configure exampleGlob exampleConfig ''sub''
       (Some \<lparr>Pkg = ''sub'',
              Directives = [\<lparr>Key = ''follow'', Value = ''link''\<rparr>,
                            \<lparr>Key = ''generation_mode'', Value = ''sometimes''\<rparr>,
                            \<lparr>Key = ''exclude'', Value = ''gen''\<rparr>]\<rparr>)
     = Inl (UnknownGenerationMode ''sometimes'' ''sub'')"
    using generation_mode_fatal_bad_pattern_skipped
      [of "\<lparr>Pkg = ''sub'',
              Directives = [\<lparr>Key = ''follow'', Value = ''link''\<rparr>,
                            \<lparr>Key = ''generation_mode'', Value = ''sometimes''\<rparr>,
                            \<lparr>Key = ''exclude'', Value = ''gen''\<rparr>]\<rparr>"
          "[\<lparr>Key = ''follow'', Value = ''link''\<rparr>]"
          "\<lparr>Key = ''generation_mode'', Value = ''sometimes''\<rparr>"
          "[\<lparr>Key = ''exclude'', Value = ''gen''\<rparr>]"
          exampleGlob exampleConfig "''sub''"]
      t2
    by simp
  have skipped: "Configure exampleGlob exampleConfig ''sub''
       (Some \<lparr>Pkg = ''sub'',
              Directives = [\<lparr>Key = ''follow'', Value = ''link''\<rparr>,
                            \<lparr>Key = ''exclude'', Value = ''[''\<rparr>,
                            \<lparr>Key = ''exclude'', Value = ''gen''\<rparr>]\<rparr>)
     = Inr ([ExclusionPatternNotValid ''sub/['' (Error ''syntax error in pattern'')],
            exampleConfig\<lparr>Exts := \<lparr>updateOnly = False, excludes = [''vendor'', ''sub/gen''],
                                    ignore = False, follow = [''sub/link'']\<rparr>\<rparr>)"
    by code_simp
  have invalid: "checkPathMatchPattern exampleGlob (Join ''sub'' ''['')
               = Some (Error ''syntax error in pattern'')"
    by code_simp
  have c: "excludes (getWalkConfig
      (exampleConfig\<lparr>Exts := \<lparr>updateOnly = False, excludes = [''vendor'', ''sub/gen''],
                                ignore = False, follow = [''sub/link'']\<rparr>\<rparr>))
     = excludes (getWalkConfig exampleConfig)
         @ validPatterns exampleGlob ''sub'' ''exclude''
             ([\<lparr>Key = ''follow'', Value = ''link''\<rparr>] @ [\<lparr>Key = ''exclude'', Value = ''gen''\<rparr>])"
    using generation_mode_fatal_bad_pattern_skipped
      [of "\<lparr>Pkg = ''sub'',
              Directives = [\<lparr>Key = ''follow'', Value = ''link''\<rparr>,
                            \<lparr>Key = ''exclude'', Value = ''[''\<rparr>,
                            \<lparr>Key = ''exclude'', Value = ''gen''\<rparr>]\<rparr>"
          "[\<lparr>Key = ''follow'', Value = ''link''\<rparr>]"
          "\<lparr>Key = ''exclude'', Value = ''[''\<rparr>"
          "[\<lparr>Key = ''exclude'', Value = ''gen''\<rparr>]"
          exampleGlob exampleConfig "''sub''"
          "[ExclusionPatternNotValid ''sub/['' (Error ''syntax error in pattern'')]"
          "exampleConfig\<lparr>Exts := \<lparr>updateOnly = False, excludes = [''vendor'', ''sub/gen''],
                                    ignore = False, follow = [''sub/link'']\<rparr>\<rparr>"
          "Error ''syntax error in pattern''"]
      skipped invalid
    by simp
  from good a again a' b skipped c show ?thesis
    by (intro conjI)
qed

text \<open>
  Against claim C6 as it is stated: the value of the directive below is
  \<open>update_only\<close> with a space before it, which is another value than
  \<open>update_only\<close> and \<open>create_and_update\<close>; the run is not aborted, and
  \<open>updateOnly\<close> is set to true.
\<close>

theorem generation_mode_padded_value_counterexample:
  "Configure exampleGlob exampleConfig ''sub''
       (Some \<lparr>Pkg = ''sub'',
              Directives = [\<lparr>Key = ''generation_mode'', Value = '' update_only''\<rparr>]\<rparr>)
     = Inr ([], exampleConfig\<lparr>Exts := \<lparr>updateOnly = True, excludes = [''vendor''],
                                          ignore = False, follow = []\<rparr>\<rparr>)"
  by code_simp

section \<open>Properties of the ignore sources\<close>

lemma dom_scanLine:
  "dom (scanLine excl line)
     = dom excl \<union> set (map (\<lambda>l. Clean (TrimSpace l)) (filter isEntry [line]))"
  by (simp add: scanLine_def isEntry_def Let_def)

lemma dom_scanLines:
  "dom (scanLines excl lines)
     = dom excl \<union> set (map (\<lambda>l. Clean (TrimSpace l)) (filter isEntry lines))"
proof (induction lines arbitrary: excl)
  case Nil
  show ?case by simp
next
  case (Cons line rest)
  have "dom (scanLines excl (line # rest))
          = (dom excl \<union> set (map (\<lambda>l. Clean (TrimSpace l)) (filter isEntry [line])))
              \<union> set (map (\<lambda>l. Clean (TrimSpace l)) (filter isEntry rest))"
    by (simp only: scanLines.simps Cons.IH dom_scanLine)
  also have "\<dots> = dom excl \<union> set (map (\<lambda>l. Clean (TrimSpace l)) (filter isEntry (line # rest)))"
    by auto
  finally show ?case .
qed

lemma isBazelIgnored_iff:
  "fst (loadBazelIgnore (Opened lines scanErr)) p
     = (p \<in> set (map (\<lambda>l. Clean (TrimSpace l)) (filter isEntry lines)))"
proof -
  have "fst (loadBazelIgnore (Opened lines scanErr)) p = (p \<in> dom (scanLines Map.empty lines))"
    by (simp add: loadBazelIgnore_def domIff)
  then show ?thesis by (simp add: dom_scanLines)
qed

lemma leadingSpace_zero: "(leadingSpace s = 0) = (\<forall>r \<in> set spaceRunes. \<not> prefix r s)"
proof (cases "find (\<lambda>r. prefix r s) spaceRunes")
  case None
  then have "\<forall>r \<in> set spaceRunes. \<not> prefix r s" by (simp add: find_None_iff)
  with None show ?thesis by (simp add: leadingSpace_def)
next
  case (Some r)
  then have "prefix r s" "r \<in> set spaceRunes"
    by (auto simp: find_Some_iff)
  moreover from this have "r \<noteq> []" by (auto simp: spaceRunes_def)
  ultimately show ?thesis using Some by (auto simp: leadingSpace_def)
qed

lemma trailingSpace_zero: "(trailingSpace s = 0) = (\<forall>r \<in> set spaceRunes. \<not> suffix r s)"
proof (cases "find (\<lambda>r. suffix r s) spaceRunes")
  case None
  then have "\<forall>r \<in> set spaceRunes. \<not> suffix r s" by (simp add: find_None_iff)
  with None show ?thesis by (simp add: trailingSpace_def)
next
  case (Some r)
  then have "suffix r s" "r \<in> set spaceRunes"
    by (auto simp: find_Some_iff)
  moreover from this have "r \<noteq> []" by (auto simp: spaceRunes_def)
  ultimately show ?thesis using Some by (auto simp: trailingSpace_def)
qed

lemma trimLeftSpace_fixed: "leadingSpace s = 0 \<Longrightarrow> trimLeftSpace s = s"
  by (subst trimLeftSpace.simps) simp

lemma trimRightSpace_fixed: "trailingSpace s = 0 \<Longrightarrow> trimRightSpace s = s"
  by (subst trimRightSpace.simps) simp

lemma trimLeftSpace_done: "leadingSpace (trimLeftSpace s) = 0"
proof (induction s rule: trimLeftSpace.induct)
  case (1 s)
  show ?case
  proof (cases "leadingSpace s = 0")
    case True
    then show ?thesis by (simp add: trimLeftSpace_fixed)
  next
    case False
    with 1 show ?thesis by (subst trimLeftSpace.simps) simp
  qed
qed

lemma trimRightSpace_done: "trailingSpace (trimRightSpace s) = 0"
proof (induction s rule: trimRightSpace.induct)
  case (1 s)
  show ?case
  proof (cases "trailingSpace s = 0")
    case True
    then show ?thesis by (simp add: trimRightSpace_fixed)
  next
    case False
    with 1 show ?thesis by (subst trimRightSpace.simps) simp
  qed
qed

lemma trimRightSpace_prefix: "prefix (trimRightSpace s) s"
proof (induction s rule: trimRightSpace.induct)
  case (1 s)
  show ?case
  proof (cases "trailingSpace s = 0")
    case True
    then show ?thesis by (simp add: trimRightSpace_fixed)
  next
    case False
    with 1 have "prefix (trimRightSpace (take (length s - trailingSpace s) s))
                   (take (length s - trailingSpace s) s)" by simp
    moreover have "prefix (take (length s - trailingSpace s) s) s"
      by (rule take_is_prefix)
    ultimately have "prefix (trimRightSpace (take (length s - trailingSpace s) s)) s"
      by (rule prefix_order.trans)
    with False show ?thesis by (subst trimRightSpace.simps) simp
  qed
qed

text \<open>
  What \<open>TrimSpace\<close> returns neither begins nor ends with white space, and
  such a string is returned as it is.
\<close>

lemma TrimSpace_trimmed:
  "leadingSpace (TrimSpace s) = 0 \<and> trailingSpace (TrimSpace s) = 0"
proof -
  have "\<not> prefix r (TrimSpace s)" if r: "r \<in> set spaceRunes" for r
  proof
    assume "prefix r (TrimSpace s)"
    moreover have "prefix (TrimSpace s) (trimLeftSpace s)"
      unfolding TrimSpace_def by (rule trimRightSpace_prefix)
    ultimately have "prefix r (trimLeftSpace s)" by (rule prefix_order.trans)
    with r trimLeftSpace_done [of s] show False by (simp add: leadingSpace_zero)
  qed
  then have "leadingSpace (TrimSpace s) = 0" by (simp add: leadingSpace_zero)
  moreover have "trailingSpace (TrimSpace s) = 0"
    unfolding TrimSpace_def by (rule trimRightSpace_done)
  ultimately show ?thesis by simp
qed

lemma TrimSpace_fixed:
  "leadingSpace s = 0 \<Longrightarrow> trailingSpace s = 0 \<Longrightarrow> TrimSpace s = s"
  by (simp add: TrimSpace_def trimLeftSpace_fixed trimRightSpace_fixed)

lemma spaceRunes_bytes:
  "r \<in> set spaceRunes \<Longrightarrow> r \<noteq> [] \<and> CHR ''.'' \<notin> set r \<and> CHR ''/'' \<notin> set r"
  by (auto simp: spaceRunes_def)

lemma TrimSpace_dot_slash:
  assumes "e = TrimSpace line" "e \<noteq> []"
  shows "TrimSpace (''./'' @ e) = ''./'' @ e"
proof -
  from assms(1) TrimSpace_trimmed [of line]
  have t: "trailingSpace e = 0" by simp
  have "\<not> prefix r (''./'' @ e)" if r: "r \<in> set spaceRunes" for r
  proof
    assume p: "prefix r (''./'' @ e)"
    from spaceRunes_bytes [OF r] obtain x xs where "r = x # xs" "x \<noteq> CHR ''.''"
      by (cases r) auto
    with p show False by simp
  qed
  then have a: "leadingSpace (''./'' @ e) = 0" by (simp add: leadingSpace_zero)
  have "\<not> suffix r (''./'' @ e)" if r: "r \<in> set spaceRunes" for r
  proof
    assume "suffix r (''./'' @ e)"
    then have "suffix r e \<or> (\<exists>xs'. suffix xs' ''./'' \<and> r = xs' @ e)"
      by (simp only: suffix_append) blast
    then have "suffix r e \<or> (\<exists>xs'. suffix xs' ''./'' \<and> xs' \<noteq> [] \<and> r = xs' @ e)"
      by (metis append_Nil suffix_order.refl)
    then show False
    proof
      assume "suffix r e"
      with r t show False by (simp add: trailingSpace_zero)
    next
      assume "\<exists>xs'. suffix xs' ''./'' \<and> xs' \<noteq> [] \<and> r = xs' @ e"
      then obtain xs' where s: "suffix xs' ''./''" and ne: "xs' \<noteq> []" and re: "r = xs' @ e"
        by blast
      from s ne have "CHR ''/'' \<in> set xs'"
        by (auto simp: suffix_def Cons_eq_append_conv append_eq_Cons_conv)
      with re spaceRunes_bytes [OF r] show False by simp
    qed
  qed
  then have b: "trailingSpace (''./'' @ e) = 0" by (simp add: trailingSpace_zero)
  from a b show ?thesis by (rule TrimSpace_fixed)
qed

lemma dot_slash_entry:
  assumes e: "isEntry line" and r: "hd (TrimSpace line) \<noteq> CHR ''/''"
  shows "isEntry (''./'' @ TrimSpace line)
         \<and> Clean (TrimSpace (''./'' @ TrimSpace line)) = Clean (TrimSpace line)"
proof -
  define e where "e = TrimSpace line"
  from \<open>isEntry line\<close> have ne: "e \<noteq> []" and g: "\<not> ContainsAny e ''*?[''"
    by (auto simp: isEntry_def e_def)
  have tt: "TrimSpace (''./'' @ e) = ''./'' @ e"
    using e_def ne by (rule TrimSpace_dot_slash)
  have "splitSlash (''./'' @ e) = ''.'' # splitSlash e" by simp
  with ne r have c: "Clean (''./'' @ e) = Clean e" by (simp add: Clean_def e_def)
  from g have "isEntry (''./'' @ e)"
    unfolding isEntry_def tt by (simp add: ContainsAny_def)
  with c tt show ?thesis by (simp add: e_def)
qed

text \<open>
  Claim C5, as amended. The predicate of \<open>.bazelignore\<close> is true for \<open>p\<close>
  exactly when \<open>p\<close> is the cleaned form of an entry of the file. A line that
  is not an entry (blank, a comment, or with a glob character) can be taken
  out of the file without changing the predicate. The entry of a line (the
  line trimmed) that does not begin with a slash gives the same predicate when
  it is written with a leading \<open>./\<close>.
\<close>

theorem bazelignore_exact_paths:
  "fst (loadBazelIgnore (Opened lines scanErr)) p
      = (p \<in> set (map (\<lambda>l. Clean (TrimSpace l)) (filter isEntry lines)))
   \<and> (\<not> isEntry line \<longrightarrow>
        fst (loadBazelIgnore (Opened (pre @ line # post) scanErr))
          = fst (loadBazelIgnore (Opened (pre @ post) scanErr)))
   \<and> (isEntry e \<and> hd (TrimSpace e) \<noteq> CHR ''/'' \<longrightarrow>
        fst (loadBazelIgnore (Opened (pre @ (''./'' @ TrimSpace e) # post) scanErr))
          = fst (loadBazelIgnore (Opened (pre @ e # post) scanErr)))"
proof (intro conjI impI)
  show "fst (loadBazelIgnore (Opened lines scanErr)) p
      = (p \<in> set (map (\<lambda>l. Clean (TrimSpace l)) (filter isEntry lines)))"
    by (rule isBazelIgnored_iff)
next
  assume "\<not> isEntry line"
  then show "fst (loadBazelIgnore (Opened (pre @ line # post) scanErr))
          = fst (loadBazelIgnore (Opened (pre @ post) scanErr))"
    by (intro ext) (simp add: isBazelIgnored_iff)
next
  assume a: "isEntry e \<and> hd (TrimSpace e) \<noteq> CHR ''/''"
  then have "isEntry (''./'' @ TrimSpace e)
         \<and> Clean (TrimSpace (''./'' @ TrimSpace e)) = Clean (TrimSpace e)"
    using dot_slash_entry [of e] by simp
  with a show "fst (loadBazelIgnore (Opened (pre @ (''./'' @ TrimSpace e) # post) scanErr))
          = fst (loadBazelIgnore (Opened (pre @ e # post) scanErr))"
    by (intro ext) (simp add: isBazelIgnored_iff)
qed

theorem bazelignore_exact_paths_witness:
  "\<not> isEntry ''# a comment'' \<and>
   fst (loadBazelIgnore (Opened ([''dir''] @ ''# a comment'' # [''a.file'']) None))
     = fst (loadBazelIgnore (Opened ([''dir''] @ [''a.file'']) None)) \<and>
   isEntry '' b.file '' \<and> TrimSpace '' b.file '' = ''b.file'' \<and>
   hd (TrimSpace '' b.file '') \<noteq> CHR ''/'' \<and>
   fst (loadBazelIgnore (Opened ([''dir''] @ (''./'' @ ''b.file'') # [''a.file'']) None))
     = fst (loadBazelIgnore (Opened ([''dir''] @ '' b.file '' # [''a.file'']) None)) \<and>
   fst (loadBazelIgnore (Opened [''dir'', ''./b.file'', ''a.file''] None)) ''b.file''"
proof -
  have c: "\<not> isEntry ''# a comment''"
    by code_simp
  have e: "isEntry '' b.file '' \<and> TrimSpace '' b.file '' = ''b.file'' \<and>
           hd (TrimSpace '' b.file '') \<noteq> CHR ''/''"
    by code_simp
  have m: "fst (loadBazelIgnore (Opened [''dir'', ''./b.file'', ''a.file''] None)) ''b.file''"
    by code_simp
  note t = bazelignore_exact_paths
             [of "[]" None "[]" "''# a comment''" "[''dir'']" "[''a.file'']" "'' b.file ''"]
  from t c have "fst (loadBazelIgnore (Opened ([''dir''] @ ''# a comment'' # [''a.file'']) None))
     = fst (loadBazelIgnore (Opened ([''dir''] @ [''a.file'']) None))"
    by blast
  moreover from t e
  have "fst (loadBazelIgnore (Opened ([''dir''] @ (''./'' @ ''b.file'') # [''a.file'']) None))
     = fst (loadBazelIgnore (Opened ([''dir''] @ '' b.file '' # [''a.file'']) None))"
    by simp
  ultimately show ?thesis using c e m by blast
qed

text \<open>
  Against claim C5 as it is stated. With the entry \<open>dir3/\<close>, where \<open>dir3\<close> is
  a directory, the path \<open>dir3/g/h\<close> lies strictly beneath the entry, and the
  predicate is false for it. And the entry \<open>/abs\<close> written with a leading
  \<open>./\<close> covers the path \<open>abs\<close>, which the entry itself does not.
\<close>

theorem bazelignore_subtree_counterexample:
  "fst (loadBazelIgnore (Opened [''dir3/''] None)) ''dir3/g/h''
     \<noteq> coveredAsClaimed [''dir3''] [''dir3/''] ''dir3/g/h'' \<and>
   fst (loadBazelIgnore (Opened [''./'' @ ''/abs''] None)) ''abs''
     \<noteq> fst (loadBazelIgnore (Opened [''/abs''] None)) ''abs''"
  by code_simp

text \<open>
  The two loaders on a missing file and on a file that cannot be opened,
  read or parsed: a missing file gives the predicate that ignores nothing and
  no error; a failure of \<open>os.Open\<close>, of \<open>os.ReadFile\<close> or of the parser gives
  an error.
\<close>

lemma ignore_sources_missing_or_unreadable:
  "loadBazelIgnore OpenNotExist = (nothingIgnored, None)"
  "snd (loadBazelIgnore (OpenFailed err)) \<noteq> None"
  "loadRepoDirectoryIgnore ds Parse ReadNotExist = (nothingIgnored, None)"
  "snd (loadRepoDirectoryIgnore ds Parse (ReadFailed err)) \<noteq> None"
  "Parse content = Inl err \<Longrightarrow> snd (loadRepoDirectoryIgnore ds Parse (ReadOk content)) \<noteq> None"
  by (simp_all add: loadBazelIgnore_def loadRepoDirectoryIgnore_def)

text \<open>
  Claim C8 at the input where the code leaves it: \<open>.bazelignore\<close> exists and
  is opened, and reading it fails (it is a directory, say). The scanner stops
  with the error in \<open>scanner.Err()\<close>, which the loader does not look at: it
  returns the entries scanned so far and no error.
\<close>

theorem bazelignore_read_error_not_reported:
  "snd (loadBazelIgnore (Opened [] (Some (Error ''read .bazelignore: is a directory'')))) = None
   \<and> snd (loadBazelIgnore (Opened lines (Some err))) = None"
  by (simp add: loadBazelIgnore_def)

section \<open>Properties of the cache\<close>

lemma get_of_resolved:
  "c key = Some (Resolved info err) \<Longrightarrow> get c key load w = Inr ((info, err), c, w)"
  by (simp add: get_def)

lemma get_result_stored:
  "get c key load w = Inr (r, c', w') \<Longrightarrow> c' key = Some (Resolved (fst r) (snd r))"
  by (auto simp: get_def split: option.splits cacheEntry.splits sum.splits)

lemma get_keeps_resolved:
  "get c key load w = Inr (r, c', w') \<Longrightarrow> c k = Some (Resolved info err)
     \<Longrightarrow> c' k = Some (Resolved info err)"
  by (auto simp: get_def split: option.splits cacheEntry.splits sum.splits)

lemma getMany_keeps_resolved:
  "getMany c calls w = Inr (rs, c', w') \<Longrightarrow> c k = Some (Resolved info err)
     \<Longrightarrow> c' k = Some (Resolved info err)"
proof (induction calls arbitrary: c w rs)
  case Nil
  then show ?case by simp
next
  case (Cons call calls)
  from Cons.prems(1) obtain r c1 w1 rs1 where
    g: "get c (fst call) (snd call) w = Inr (r, c1, w1)" and
    m: "getMany c1 calls w1 = Inr (rs1, c', w')"
    by (auto split: sum.splits)
  from get_keeps_resolved [OF g Cons.prems(2)] have "c1 k = Some (Resolved info err)" .
  from Cons.IH [OF m this] show ?case .
qed

text \<open>
  In a sequence of calls that starts with the entry of \<open>k\<close> resolved, every
  call for \<open>k\<close> returns what the entry holds.
\<close>

lemma getMany_results:
  "getMany c calls w = Inr (rs, c', w') \<Longrightarrow> c k = Some (Resolved info err)
     \<Longrightarrow> length rs = length calls
         \<and> (\<forall>j < length calls. fst (calls ! j) = k \<longrightarrow> rs ! j = (info, err))"
proof (induction calls arbitrary: c w rs)
  case Nil
  then show ?case by simp
next
  case (Cons call calls)
  from Cons.prems(1) obtain r c1 w1 rs1 where
    g: "get c (fst call) (snd call) w = Inr (r, c1, w1)" and
    m: "getMany c1 calls w1 = Inr (rs1, c', w')" and
    rs: "rs = r # rs1"
    by (auto split: sum.splits)
  have c1: "c1 k = Some (Resolved info err)"
    by (rule get_keeps_resolved [OF g Cons.prems(2)])
  have first: "fst call = k \<Longrightarrow> r = (info, err)"
    using g get_of_resolved [of c k info err "snd call" w] Cons.prems(2) by simp
  from Cons.IH [OF m c1] have ih:
    "length rs1 = length calls"
    "\<forall>j < length calls. fst (calls ! j) = k \<longrightarrow> rs1 ! j = (info, err)"
    by simp_all
  show ?case
  proof (intro conjI allI impI)
    show "length rs = length (call # calls)" using ih(1) rs by simp
  next
    fix j assume j: "j < length (call # calls)" and k: "fst ((call # calls) ! j) = k"
    show "rs ! j = (info, err)"
    proof (cases j)
      case 0
      with k first rs show ?thesis by simp
    next
      case (Suc i)
      with j k ih(2) rs show ?thesis by simp
    qed
  qed
qed

text \<open>
  Claim C2. Once \<open>get\<close> has returned the pair \<open>r\<close> for \<open>key\<close>, then after any
  further sequence of calls of \<open>get\<close> (any keys, any loaders) a call for
  \<open>key\<close> returns \<open>r\<close> whatever its loader \<open>load'\<close> is, and leaves the cache
  and the world as they are, so \<open>load'\<close> has not run; the calls for \<open>key\<close>
  within the sequence have returned \<open>r\<close> as well, and the entry still holds
  \<open>r\<close>.
\<close>

theorem get_result_is_final:
  assumes first: "get c key load w = Inr (r, c1, w1)"
    and later: "getMany c1 calls w1 = Inr (rs, c2, w2)"
  shows "get c2 key load' w' = Inr (r, c2, w')
         \<and> (\<forall>j < length calls. fst (calls ! j) = key \<longrightarrow> rs ! j = r)
         \<and> c2 key = Some (Resolved (fst r) (snd r))"
proof -
  have s1: "c1 key = Some (Resolved (fst r) (snd r))"
    by (rule get_result_stored [OF first])
  have s2: "c2 key = Some (Resolved (fst r) (snd r))"
    by (rule getMany_keeps_resolved [OF later s1])
  have "get c2 key load' w' = Inr (r, c2, w')"
    using get_of_resolved [of c2 key "fst r" "snd r" load' w'] s2 by simp
  moreover have "\<forall>j < length calls. fst (calls ! j) = key \<longrightarrow> rs ! j = r"
    using getMany_results [OF later s1] by simp
  ultimately show ?thesis using s2 by simp
qed

theorem get_result_is_final_witness:
  "get Map.empty ''a'' countingLoad 0
     = Inr ((0, None), Map.empty(''a'' \<mapsto> Resolved 0 None), 1) \<and>
   getMany (Map.empty(''a'' \<mapsto> Resolved 0 None)) [(''bc'', countingLoad), (''a'', panickingLoad)] 1
     = Inr ([(1, None), (0, None)],
            Map.empty(''a'' \<mapsto> Resolved 0 None, ''bc'' \<mapsto> Resolved 1 None), 2) \<and>
   get (Map.empty(''a'' \<mapsto> Resolved 0 None, ''bc'' \<mapsto> Resolved 1 None)) ''a'' panickingLoad 7
     = Inr ((0, None), Map.empty(''a'' \<mapsto> Resolved 0 None, ''bc'' \<mapsto> Resolved 1 None), 7)"
proof -
  have first: "get Map.empty ''a'' countingLoad 0
     = Inr ((0, None), Map.empty(''a'' \<mapsto> Resolved 0 None), 1)"
    by (simp add: get_def countingLoad_def)
  have later: "getMany (Map.empty(''a'' \<mapsto> Resolved 0 None))
       [(''bc'', countingLoad), (''a'', panickingLoad)] 1
     = Inr ([(1, None), (0, None)],
            Map.empty(''a'' \<mapsto> Resolved 0 None, ''bc'' \<mapsto> Resolved 1 None), 2)"
    by (simp add: get_def countingLoad_def)
  from get_result_is_final [OF first later, of panickingLoad 7] first later
  show ?thesis by simp
qed

section \<open>Properties of the directory loader\<close>

lemma loadDirInfo_returns:
  assumes "parentConfig w c rel = Inr pc"
    and "configureForWalk w pc rel (fst (walkerBuildFile w pc rel)) = Inr cfg"
  shows "loadDirInfo w c rel =
     Inr (\<lparr>Subdirs = fst (classifyEntries w cfg rel (walkerDir w rel) ([], [])
                            (if isExcludedDir w cfg rel then [] else fst (ReadDir w (walkerDir w rel)))),
           RegularFiles = snd (classifyEntries w cfg rel (walkerDir w rel) ([], [])
                            (if isExcludedDir w cfg rel then [] else fst (ReadDir w (walkerDir w rel)))),
           GenFiles = findGenFiles w cfg (fst (walkerBuildFile w pc rel)),
           File = fst (walkerBuildFile w pc rel), config = cfg\<rparr>,
          errorsJoin (appendErr (appendErr [] (snd (ReadDir w (walkerDir w rel))))
                        (snd (walkerBuildFile w pc rel))))"
  using assms by (simp add: loadDirInfo_def Let_def)

lemma loadDirInfo_Inr_cases:
  assumes "loadDirInfo w c rel = Inr r"
  obtains pc cfg where "parentConfig w c rel = Inr pc"
    and "configureForWalk w pc rel (fst (walkerBuildFile w pc rel)) = Inr cfg"
proof -
  from assms obtain pc where pc: "parentConfig w c rel = Inr pc"
    by (cases "parentConfig w c rel") (simp_all add: loadDirInfo_def Let_def)
  from assms pc obtain cfg where
    "configureForWalk w pc rel (fst (walkerBuildFile w pc rel)) = Inr cfg"
    by (cases "configureForWalk w pc rel (fst (walkerBuildFile w pc rel))")
       (simp_all add: loadDirInfo_def Let_def)
  with pc that show thesis by blast
qed


text \<open>
  Claim C4. When \<open>loadDirInfo\<close> returns for a directory that its own
  configuration excludes, \<open>Subdirs\<close> and \<open>RegularFiles\<close> are empty; the build
  file is the one loaded under the parent's configuration, the configuration
  is the one derived from it, and the error is the join of the errors of
  reading the directory and of loading the build file, nothing added for the
  exclusion.
\<close>

theorem excluded_dir_has_no_contents:
  assumes ld: "loadDirInfo w c rel = Inr (info, err)"
    and ex: "isExcludedDir w (config info) rel"
  shows "Subdirs info = [] \<and> RegularFiles info = [] \<and>
         (\<exists>pc. parentConfig w c rel = Inr pc \<and>
            File info = fst (walkerBuildFile w pc rel) \<and>
            configureForWalk w pc rel (File info) = Inr (config info) \<and>
            err = errorsJoin (appendErr (appendErr [] (snd (ReadDir w (walkerDir w rel))))
                                (snd (walkerBuildFile w pc rel))))"
proof -
  from ld obtain pc cfg where pc: "parentConfig w c rel = Inr pc"
    and cfg: "configureForWalk w pc rel (fst (walkerBuildFile w pc rel)) = Inr cfg"
    by (rule loadDirInfo_Inr_cases)
  note r = loadDirInfo_returns [OF pc cfg]
  from ld r have c: "config info = cfg" and f: "File info = fst (walkerBuildFile w pc rel)"
    and e: "err = errorsJoin (appendErr (appendErr [] (snd (ReadDir w (walkerDir w rel))))
                                (snd (walkerBuildFile w pc rel)))"
    by auto
  from ex c have x: "isExcludedDir w cfg rel" by simp
  from ld r x have "Subdirs info = []" "RegularFiles info = []" by auto
  with pc cfg c f e show ?thesis by auto
qed

theorem excluded_dir_has_no_contents_witness:
  "loadDirInfo exampleWalker exampleCache ''sub''
     = Inr (\<lparr>Subdirs = [], RegularFiles = [], GenFiles = [],
             File = Some \<lparr>Pkg = ''sub'', Directives = [\<lparr>Key = ''exclude'', Value = ''.''\<rparr>]\<rparr>,
             config = \<lparr>updateOnly = False, excludes = [''vendor'', ''sub''], ignore = False,
                        follow = []\<rparr>\<rparr>, None) \<and>
   isExcludedDir exampleWalker
     \<lparr>updateOnly = False, excludes = [''vendor'', ''sub''], ignore = False, follow = []\<rparr> ''sub'' \<and>
   fst (ReadDir exampleWalker (walkerDir exampleWalker ''sub''))
     = [\<lparr>Name = ''BUILD.bazel'', IsDir = False\<rparr>, \<lparr>Name = ''below'', IsDir = True\<rparr>]"
proof -
  have ld: "loadDirInfo exampleWalker exampleCache ''sub''
     = Inr (\<lparr>Subdirs = [], RegularFiles = [], GenFiles = [],
             File = Some \<lparr>Pkg = ''sub'', Directives = [\<lparr>Key = ''exclude'', Value = ''.''\<rparr>]\<rparr>,
             config = \<lparr>updateOnly = False, excludes = [''vendor'', ''sub''], ignore = False,
                        follow = []\<rparr>\<rparr>, None)"
    by code_simp
  have ex: "isExcludedDir exampleWalker
     (config \<lparr>Subdirs = [], RegularFiles = [], GenFiles = [],
             File = Some \<lparr>Pkg = ''sub'', Directives = [\<lparr>Key = ''exclude'', Value = ''.''\<rparr>]\<rparr>,
             config = \<lparr>updateOnly = False, excludes = [''vendor'', ''sub''], ignore = False,
                        follow = []\<rparr>\<rparr>) ''sub''"
    by code_simp
  have rd: "fst (ReadDir exampleWalker (walkerDir exampleWalker ''sub''))
     = [\<lparr>Name = ''BUILD.bazel'', IsDir = False\<rparr>, \<lparr>Name = ''below'', IsDir = True\<rparr>]"
    by code_simp
  from excluded_dir_has_no_contents [OF ld ex] ld ex rd show ?thesis by simp
qed




text \<open>
  The older loader on the cache of older records looks up the same parent
  configuration as the newer loader on the newer cache.
\<close>

lemma getLoaded_forgetCache:
  "getLoaded (forgetCache c) k
     = map_sum id (\<lambda>r. (forgetGenFiles (fst r), snd r)) (getLoaded c k)"
  by (simp add: getLoaded_def forgetCache_def forgetEntry_def
           split: option.splits cacheEntry.splits)

lemma parentConfig_old_forgetCache:
  "parentConfig_old w (forgetCache c) rel = parentConfig w c rel"
  by (cases "getLoaded c (parentRel rel)")
     (simp_all add: parentConfig_old_def parentConfig_def getLoaded_forgetCache forgetGenFiles_def)

text \<open>
  Claim C10. On a cache that holds the older records of what the newer cache
  holds, the older \<open>loadDirInfo\<close> ends as the newer one does, and when they
  return, the older result is the newer one without \<open>GenFiles\<close>: the same
  subdirectories and regular files in the same order, the same build file,
  configuration and error. The \<open>GenFiles\<close> of the newer result are what
  \<open>findGenFiles\<close> gives for the configuration and the build file returned.
\<close>

theorem loadDirInfo_old_and_new_agree:
  "loadDirInfo_old w (forgetCache c) rel
     = map_sum id (\<lambda>r. (forgetGenFiles (fst r), snd r)) (loadDirInfo w c rel) \<and>
   map_sum id (\<lambda>r. GenFiles (fst r)) (loadDirInfo w c rel)
     = map_sum id (\<lambda>r. findGenFiles w (config (fst r)) (File (fst r))) (loadDirInfo w c rel)"
proof
  show "loadDirInfo_old w (forgetCache c) rel
     = map_sum id (\<lambda>r. (forgetGenFiles (fst r), snd r)) (loadDirInfo w c rel)"
    by (simp add: loadDirInfo_old_def loadDirInfo_def parentConfig_old_forgetCache Let_def
          forgetGenFiles_def split: sum.splits)
  show "map_sum id (\<lambda>r. GenFiles (fst r)) (loadDirInfo w c rel)
     = map_sum id (\<lambda>r. findGenFiles w (config (fst r)) (File (fst r))) (loadDirInfo w c rel)"
    by (simp add: loadDirInfo_def Let_def split: sum.splits)
qed

theorem loadDirInfo_old_and_new_agree_witness:
  "loadDirInfo_old exampleWalker (forgetCache exampleCache) ''a''
     = Inr (\<lparr>subdirs = [''b''], regularFiles = [''BUILD.bazel'', ''a.proto''], file_old = None,
             config_old = \<lparr>updateOnly = False, excludes = [''vendor''], ignore = False,
                            follow = []\<rparr>\<rparr>,
            Some (JoinError [Error ''a/BUILD.bazel: syntax error'']))"
proof -
  have "loadDirInfo exampleWalker exampleCache ''a''
     = Inr (\<lparr>Subdirs = [''b''], RegularFiles = [''BUILD.bazel'', ''a.proto''], GenFiles = [],
             File = None,
             config = \<lparr>updateOnly = False, excludes = [''vendor''], ignore = False,
                        follow = []\<rparr>\<rparr>,
            Some (JoinError [Error ''a/BUILD.bazel: syntax error'']))"
    by code_simp
  with loadDirInfo_old_and_new_agree [of exampleWalker exampleCache "''a''", THEN conjunct1]
  show ?thesis by (simp add: forgetGenFiles_def)
qed

section \<open>Properties of paths\<close>























section \<open>Properties of \<open>populateCache\<close>\<close>

subsection \<open>The keys of the serial phase\<close>









lemma parentsFirst_mono:
  "parentsFirst L keys \<Longrightarrow> L \<subseteq> L' \<Longrightarrow> parentsFirst L' keys"
proof (induction keys arbitrary: L L')
  case Nil
  show ?case by simp
next
  case (Cons key keys)
  from Cons.prems have "parentsFirst (insert key L) keys" "insert key L \<subseteq> insert key L'"
    by auto
  from Cons.IH [OF this] Cons.prems show ?case by auto
qed









subsection \<open>The loads never miss the parent\<close>


















section \<open>Properties of \<open>cache.get\<close> under several goroutines\<close>

lemma moveTo_simps:
  "entryMap (moveTo n pos s) = entryMap s"
  "loadCalls (moveTo n pos s) = loadCalls s"
  "length (goroutines (moveTo n pos s)) = length (goroutines s)"
  by (simp_all add: moveTo_def)

lemma moveTo_nth:
  "m < length (goroutines s) \<Longrightarrow>
     goroutines (moveTo n pos s) ! m
       = (if m = n then (fst (goroutines s ! n), pos) else goroutines s ! m)"
  by (simp add: moveTo_def nth_list_update)

lemma moveTo_same_shared:
  "(moveTo n pos s)\<lparr>entryMap := entryMap s, loadCalls := loadCalls s\<rparr> = moveTo n pos s"
  by (simp add: moveTo_def)

text \<open>
  A step moves one goroutine, may change the map to \<open>M\<close> and the calls of the
  loader to \<open>L\<close>. Each part of the invariant survives under a condition on
  the move.
\<close>

lemma callerHasPending_moved:
  assumes "callerHasPending s" "n < length (goroutines s)"
    and "pos = AtLoadCall \<longrightarrow> M (fst (goroutines s ! n)) = Some Pending"
    and "\<And>m. m < length (goroutines s) \<Longrightarrow> m \<noteq> n \<Longrightarrow> snd (goroutines s ! m) = AtLoadCall \<Longrightarrow>
            M (fst (goroutines s ! m)) = entryMap s (fst (goroutines s ! m))"
  shows "callerHasPending ((moveTo n pos s)\<lparr>entryMap := M, loadCalls := L\<rparr>)"
  unfolding callerHasPending_def
proof (intro allI impI)
  fix m
  assume m: "m < length (goroutines ((moveTo n pos s)\<lparr>entryMap := M, loadCalls := L\<rparr>))"
    and at: "snd (goroutines ((moveTo n pos s)\<lparr>entryMap := M, loadCalls := L\<rparr>) ! m) = AtLoadCall"
  from m have m': "m < length (goroutines s)" by (simp add: moveTo_simps)
  show "entryMap ((moveTo n pos s)\<lparr>entryMap := M, loadCalls := L\<rparr>)
          (fst (goroutines ((moveTo n pos s)\<lparr>entryMap := M, loadCalls := L\<rparr>) ! m)) = Some Pending"
  proof (cases "m = n")
    case True
    with at m' assms(3) show ?thesis by (simp add: moveTo_nth)
  next
    case False
    with at m' have "snd (goroutines s ! m) = AtLoadCall" by (simp add: moveTo_nth)
    with assms(1,4) m' False show ?thesis
      by (simp add: moveTo_nth callerHasPending_def)
  qed
qed

lemma oneCallerPerKey_moved:
  assumes "oneCallerPerKey s" "n < length (goroutines s)"
    and "\<And>m. pos = AtLoadCall \<Longrightarrow> m < length (goroutines s) \<Longrightarrow> m \<noteq> n \<Longrightarrow>
            snd (goroutines s ! m) = AtLoadCall \<Longrightarrow> fst (goroutines s ! m) \<noteq> fst (goroutines s ! n)"
  shows "oneCallerPerKey ((moveTo n pos s)\<lparr>entryMap := M, loadCalls := L\<rparr>)"
  unfolding oneCallerPerKey_def
proof (intro allI impI)
  fix a b
  assume a: "a < length (goroutines ((moveTo n pos s)\<lparr>entryMap := M, loadCalls := L\<rparr>))"
    and b: "b < length (goroutines ((moveTo n pos s)\<lparr>entryMap := M, loadCalls := L\<rparr>))"
    and both: "snd (goroutines ((moveTo n pos s)\<lparr>entryMap := M, loadCalls := L\<rparr>) ! a) = AtLoadCall \<and>
               snd (goroutines ((moveTo n pos s)\<lparr>entryMap := M, loadCalls := L\<rparr>) ! b) = AtLoadCall \<and>
               fst (goroutines ((moveTo n pos s)\<lparr>entryMap := M, loadCalls := L\<rparr>) ! a)
                 = fst (goroutines ((moveTo n pos s)\<lparr>entryMap := M, loadCalls := L\<rparr>) ! b)"
  from a b have a': "a < length (goroutines s)" and b': "b < length (goroutines s)"
    by (simp_all add: moveTo_simps)
  show "a = b"
  proof (cases "a = n")
    case an: True
    show ?thesis
    proof (cases "b = n")
      case True
      with an show ?thesis by simp
    next
      case False
      with an both a' b' have "pos = AtLoadCall" "snd (goroutines s ! b) = AtLoadCall"
        "fst (goroutines s ! b) = fst (goroutines s ! n)"
        by (simp_all add: moveTo_nth)
      with assms(3) [of b] b' False show ?thesis by simp
    qed
  next
    case an: False
    show ?thesis
    proof (cases "b = n")
      case True
      with an both a' b' have "pos = AtLoadCall" "snd (goroutines s ! a) = AtLoadCall"
        "fst (goroutines s ! a) = fst (goroutines s ! n)"
        by (simp_all add: moveTo_nth)
      with assms(3) [of a] a' an show ?thesis by simp
    next
      case False
      with an both a' b' have "snd (goroutines s ! a) = AtLoadCall \<and> snd (goroutines s ! b) = AtLoadCall
        \<and> fst (goroutines s ! a) = fst (goroutines s ! b)"
        by (simp add: moveTo_nth)
      with assms(1) a' b' show ?thesis
        unfolding oneCallerPerKey_def by blast
    qed
  qed
qed

lemma returnedFromEntry_moved:
  assumes "returnedFromEntry s" "n < length (goroutines s)"
    and "\<And>info err. pos = Returned info err \<Longrightarrow> M (fst (goroutines s ! n)) = Some (Resolved info err)"
    and "\<And>key info err. entryMap s key = Some (Resolved info err) \<Longrightarrow> M key = Some (Resolved info err)"
  shows "returnedFromEntry ((moveTo n pos s)\<lparr>entryMap := M, loadCalls := L\<rparr>)"
  unfolding returnedFromEntry_def
proof (intro allI impI)
  fix m info err
  assume m: "m < length (goroutines ((moveTo n pos s)\<lparr>entryMap := M, loadCalls := L\<rparr>))"
    and at: "snd (goroutines ((moveTo n pos s)\<lparr>entryMap := M, loadCalls := L\<rparr>) ! m) = Returned info err"
  from m have m': "m < length (goroutines s)" by (simp add: moveTo_simps)
  show "entryMap ((moveTo n pos s)\<lparr>entryMap := M, loadCalls := L\<rparr>)
          (fst (goroutines ((moveTo n pos s)\<lparr>entryMap := M, loadCalls := L\<rparr>) ! m))
          = Some (Resolved info err)"
  proof (cases "m = n")
    case True
    with at m' assms(3) show ?thesis by (simp add: moveTo_nth)
  next
    case False
    with at m' have "snd (goroutines s ! m) = Returned info err" by (simp add: moveTo_nth)
    with assms(1) m' have "entryMap s (fst (goroutines s ! m)) = Some (Resolved info err)"
      unfolding returnedFromEntry_def by blast
    from assms(4) [OF this] False m' show ?thesis by (simp add: moveTo_nth)
  qed
qed

lemma waiterHasEntry_moved:
  assumes "waiterHasEntry s" "n < length (goroutines s)"
    and "pos = AtReceive \<longrightarrow> M (fst (goroutines s ! n)) \<noteq> None"
    and "\<And>key. entryMap s key \<noteq> None \<Longrightarrow> M key \<noteq> None"
  shows "waiterHasEntry ((moveTo n pos s)\<lparr>entryMap := M, loadCalls := L\<rparr>)"
  unfolding waiterHasEntry_def
proof (intro allI impI)
  fix m
  assume m: "m < length (goroutines ((moveTo n pos s)\<lparr>entryMap := M, loadCalls := L\<rparr>))"
    and at: "snd (goroutines ((moveTo n pos s)\<lparr>entryMap := M, loadCalls := L\<rparr>) ! m) = AtReceive"
  from m have m': "m < length (goroutines s)" by (simp add: moveTo_simps)
  show "entryMap ((moveTo n pos s)\<lparr>entryMap := M, loadCalls := L\<rparr>)
          (fst (goroutines ((moveTo n pos s)\<lparr>entryMap := M, loadCalls := L\<rparr>) ! m)) \<noteq> None"
  proof (cases "m = n")
    case True
    with at m' assms(3) show ?thesis by (simp add: moveTo_nth)
  next
    case False
    with at m' have "snd (goroutines s ! m) = AtReceive" by (simp add: moveTo_nth)
    with assms(1) m' have "entryMap s (fst (goroutines s ! m)) \<noteq> None"
      unfolding waiterHasEntry_def by blast
    from assms(4) [OF this] False m' show ?thesis by (simp add: moveTo_nth)
  qed
qed

lemma pendingHasCaller_moved:
  assumes "pendingHasCaller s" "n < length (goroutines s)"
    and "\<And>key. M key = Some Pending \<Longrightarrow>
            (pos = AtLoadCall \<and> key = fst (goroutines s ! n))
            \<or> (entryMap s key = Some Pending \<and> goroutines s ! n \<noteq> (key, AtLoadCall))"
  shows "pendingHasCaller ((moveTo n pos s)\<lparr>entryMap := M, loadCalls := L\<rparr>)"
  unfolding pendingHasCaller_def
proof (intro allI impI)
  fix key
  assume "entryMap ((moveTo n pos s)\<lparr>entryMap := M, loadCalls := L\<rparr>) key = Some Pending"
  then have "M key = Some Pending" by simp
  from assms(3) [OF this]
  show "\<exists>m < length (goroutines ((moveTo n pos s)\<lparr>entryMap := M, loadCalls := L\<rparr>)).
          goroutines ((moveTo n pos s)\<lparr>entryMap := M, loadCalls := L\<rparr>) ! m = (key, AtLoadCall)"
  proof
    assume "pos = AtLoadCall \<and> key = fst (goroutines s ! n)"
    with assms(2) have "goroutines (moveTo n pos s) ! n = (key, AtLoadCall)"
      by (simp add: moveTo_nth)
    with assms(2) show ?thesis
      by (auto simp: moveTo_simps)
  next
    assume old: "entryMap s key = Some Pending \<and> goroutines s ! n \<noteq> (key, AtLoadCall)"
    with assms(1) obtain m where m: "m < length (goroutines s)" "goroutines s ! m = (key, AtLoadCall)"
      unfolding pendingHasCaller_def by blast
    with old have "m \<noteq> n" by auto
    with m have "goroutines (moveTo n pos s) ! m = (key, AtLoadCall)"
      by (simp add: moveTo_nth)
    with m(1) show ?thesis
      by (auto simp: moveTo_simps)
  qed
qed

lemma calledOnce_same_calls:
  assumes "calledOnce s"
    and "\<And>key info err. (M key = Some (Resolved info err))
                            = (entryMap s key = Some (Resolved info err))"
  shows "calledOnce ((moveTo n pos s)\<lparr>entryMap := M, loadCalls := loadCalls s\<rparr>)"
  using assms unfolding calledOnce_def by (simp add: moveTo_simps)

lemma calledOnce_new_call:
  assumes "calledOnce s" "entryMap s key = Some Pending"
  shows "calledOnce ((moveTo n pos s)\<lparr>entryMap := (entryMap s)(key \<mapsto> Resolved info err),
                                       loadCalls := loadCalls s @ [(key, info, err)]\<rparr>)"
proof -
  from assms have d: "distinct (map fst (loadCalls s))"
    and iff: "\<And>k i e. (entryMap s k = Some (Resolved i e)) = ((k, i, e) \<in> set (loadCalls s))"
    unfolding calledOnce_def by simp_all
  have new: "(key, i, e) \<notin> set (loadCalls s)" for i e
    using iff [of key i e] assms(2) by simp
  then have "key \<notin> fst ` set (loadCalls s)"
    by auto
  with d have d': "distinct (map fst (loadCalls s @ [(key, info, err)]))"
    by simp
  have "(((entryMap s)(key \<mapsto> Resolved info err)) k = Some (Resolved i e))
          = ((k, i, e) \<in> set (loadCalls s @ [(key, info, err)]))" for k i e
    using iff [of k i e] new [of i e] by auto
  with d' show ?thesis
    unfolding calledOnce_def by (simp add: moveTo_simps)
qed

text \<open>The moves that leave the map and the calls as they are.\<close>

lemma singleFlight_moveTo:
  assumes inv: "singleFlight s" and n: "n < length (goroutines s)"
    and before: "snd (goroutines s ! n) \<noteq> AtLoadCall"
    and pos: "(pos = AtReceive \<and> entryMap s (fst (goroutines s ! n)) \<noteq> None)
              \<or> pos = AtLoadOrStore
              \<or> (\<exists>info err. pos = Returned info err
                    \<and> entryMap s (fst (goroutines s ! n)) = Some (Resolved info err))"
  shows "singleFlight (moveTo n pos s)"
proof -
  from inv have parts: "callerHasPending s" "oneCallerPerKey s" "calledOnce s" "returnedFromEntry s"
    "waiterHasEntry s" "pendingHasCaller s"
    by (simp_all add: singleFlight_def)
  from pos have notcall: "pos \<noteq> AtLoadCall" by auto
  from before have notcaller: "goroutines s ! n \<noteq> (key, AtLoadCall)" for key
    by auto
  have "callerHasPending ((moveTo n pos s)\<lparr>entryMap := entryMap s, loadCalls := loadCalls s\<rparr>)"
    using parts(1) n notcall by (intro callerHasPending_moved) simp_all
  moreover have "oneCallerPerKey ((moveTo n pos s)\<lparr>entryMap := entryMap s, loadCalls := loadCalls s\<rparr>)"
    using parts(2) n notcall by (intro oneCallerPerKey_moved) simp_all
  moreover have "calledOnce ((moveTo n pos s)\<lparr>entryMap := entryMap s, loadCalls := loadCalls s\<rparr>)"
    using parts(3) by (intro calledOnce_same_calls) simp_all
  moreover have "returnedFromEntry ((moveTo n pos s)\<lparr>entryMap := entryMap s, loadCalls := loadCalls s\<rparr>)"
    using parts(4) n pos by (intro returnedFromEntry_moved) auto
  moreover have "waiterHasEntry ((moveTo n pos s)\<lparr>entryMap := entryMap s, loadCalls := loadCalls s\<rparr>)"
    using parts(5) n pos by (intro waiterHasEntry_moved) auto
  moreover have "pendingHasCaller ((moveTo n pos s)\<lparr>entryMap := entryMap s, loadCalls := loadCalls s\<rparr>)"
    using parts(6) n notcaller by (intro pendingHasCaller_moved) simp_all
  ultimately show ?thesis
    by (simp add: singleFlight_def moveTo_same_shared)
qed

text \<open>\<open>LoadOrStore\<close> stores the new entry: the key had none.\<close>

lemma singleFlight_store:
  assumes inv: "singleFlight s" and n: "n < length (goroutines s)"
    and none: "entryMap s (fst (goroutines s ! n)) = None"
  shows "singleFlight ((moveTo n AtLoadCall s)
           \<lparr>entryMap := (entryMap s)(fst (goroutines s ! n) \<mapsto> Pending)\<rparr>)"
proof -
  define key where "key = fst (goroutines s ! n)"
  from inv have parts: "callerHasPending s" "oneCallerPerKey s" "calledOnce s" "returnedFromEntry s"
    "waiterHasEntry s" "pendingHasCaller s"
    by (simp_all add: singleFlight_def)
  have other: "fst (goroutines s ! m) \<noteq> key"
    if "m < length (goroutines s)" "snd (goroutines s ! m) = AtLoadCall" for m
    using parts(1) that none unfolding callerHasPending_def key_def by auto
  from other [OF n] have notcaller: "goroutines s ! n \<noteq> (k, AtLoadCall)" for k
    by (auto simp: key_def)
  have keep: "(((entryMap s)(key \<mapsto> Pending)) k = Some (Resolved info err))
                = (entryMap s k = Some (Resolved info err))" for k info err
    using none unfolding key_def by auto
  have "callerHasPending ((moveTo n AtLoadCall s)
          \<lparr>entryMap := (entryMap s)(key \<mapsto> Pending), loadCalls := loadCalls s\<rparr>)"
    using parts(1) n other by (intro callerHasPending_moved) (simp_all add: key_def)
  moreover have "oneCallerPerKey ((moveTo n AtLoadCall s)
          \<lparr>entryMap := (entryMap s)(key \<mapsto> Pending), loadCalls := loadCalls s\<rparr>)"
    using parts(2) n other by (intro oneCallerPerKey_moved) (simp_all add: key_def)
  moreover have "calledOnce ((moveTo n AtLoadCall s)
          \<lparr>entryMap := (entryMap s)(key \<mapsto> Pending), loadCalls := loadCalls s\<rparr>)"
    using parts(3) keep by (intro calledOnce_same_calls)
  moreover have "returnedFromEntry ((moveTo n AtLoadCall s)
          \<lparr>entryMap := (entryMap s)(key \<mapsto> Pending), loadCalls := loadCalls s\<rparr>)"
    using parts(4) n keep by (intro returnedFromEntry_moved) simp_all
  moreover have "waiterHasEntry ((moveTo n AtLoadCall s)
          \<lparr>entryMap := (entryMap s)(key \<mapsto> Pending), loadCalls := loadCalls s\<rparr>)"
    using parts(5) n by (intro waiterHasEntry_moved) simp_all
  moreover have "pendingHasCaller ((moveTo n AtLoadCall s)
          \<lparr>entryMap := (entryMap s)(key \<mapsto> Pending), loadCalls := loadCalls s\<rparr>)"
    using parts(6) n notcaller
    by (intro pendingHasCaller_moved) (auto simp: key_def split: if_splits)
  ultimately have "singleFlight ((moveTo n AtLoadCall s)
          \<lparr>entryMap := (entryMap s)(key \<mapsto> Pending), loadCalls := loadCalls s\<rparr>)"
    by (simp add: singleFlight_def)
  moreover have "(moveTo n AtLoadCall s)
          \<lparr>entryMap := (entryMap s)(key \<mapsto> Pending), loadCalls := loadCalls s\<rparr>
       = (moveTo n AtLoadCall s)\<lparr>entryMap := (entryMap s)(key \<mapsto> Pending)\<rparr>"
    by (simp add: moveTo_def)
  ultimately show ?thesis by (simp add: key_def)
qed

text \<open>The call of the loader, with the result published.\<close>

lemma singleFlight_load:
  assumes inv: "singleFlight s" and n: "n < length (goroutines s)"
    and pos: "snd (goroutines s ! n) = AtLoadCall"
  shows "singleFlight ((moveTo n (Returned info err) s)
           \<lparr>entryMap := (entryMap s)(fst (goroutines s ! n) \<mapsto> Resolved info err),
            loadCalls := loadCalls s @ [(fst (goroutines s ! n), info, err)]\<rparr>)"
proof -
  define key where "key = fst (goroutines s ! n)"
  from inv have parts: "callerHasPending s" "oneCallerPerKey s" "calledOnce s" "returnedFromEntry s"
    "waiterHasEntry s" "pendingHasCaller s"
    by (simp_all add: singleFlight_def)
  from parts(1) n pos have pending: "entryMap s key = Some Pending"
    unfolding callerHasPending_def key_def by blast
  have other: "fst (goroutines s ! m) \<noteq> key"
    if "m < length (goroutines s)" "snd (goroutines s ! m) = AtLoadCall" "m \<noteq> n" for m
    using parts(2) that n pos unfolding oneCallerPerKey_def key_def by blast
  have keep: "((entryMap s)(key \<mapsto> Resolved info err)) k = Some (Resolved i e)"
    if "entryMap s k = Some (Resolved i e)" for k i e
    using that pending by auto
  have "callerHasPending ((moveTo n (Returned info err) s)
          \<lparr>entryMap := (entryMap s)(key \<mapsto> Resolved info err),
           loadCalls := loadCalls s @ [(key, info, err)]\<rparr>)"
    using parts(1) n other by (intro callerHasPending_moved) simp_all
  moreover have "oneCallerPerKey ((moveTo n (Returned info err) s)
          \<lparr>entryMap := (entryMap s)(key \<mapsto> Resolved info err),
           loadCalls := loadCalls s @ [(key, info, err)]\<rparr>)"
    using parts(2) n by (intro oneCallerPerKey_moved) simp_all
  moreover have "calledOnce ((moveTo n (Returned info err) s)
          \<lparr>entryMap := (entryMap s)(key \<mapsto> Resolved info err),
           loadCalls := loadCalls s @ [(key, info, err)]\<rparr>)"
    using parts(3) pending by (rule calledOnce_new_call)
  moreover have "returnedFromEntry ((moveTo n (Returned info err) s)
          \<lparr>entryMap := (entryMap s)(key \<mapsto> Resolved info err),
           loadCalls := loadCalls s @ [(key, info, err)]\<rparr>)"
    using parts(4) n keep by (intro returnedFromEntry_moved) (simp_all add: key_def)
  moreover have "waiterHasEntry ((moveTo n (Returned info err) s)
          \<lparr>entryMap := (entryMap s)(key \<mapsto> Resolved info err),
           loadCalls := loadCalls s @ [(key, info, err)]\<rparr>)"
    using parts(5) n by (intro waiterHasEntry_moved) simp_all
  moreover have "pendingHasCaller ((moveTo n (Returned info err) s)
          \<lparr>entryMap := (entryMap s)(key \<mapsto> Resolved info err),
           loadCalls := loadCalls s @ [(key, info, err)]\<rparr>)"
    using parts(6) n
    by (intro pendingHasCaller_moved) (auto simp: key_def split: if_splits)
  ultimately show ?thesis
    by (simp add: singleFlight_def key_def)
qed

lemma singleFlight_step:
  assumes inv: "singleFlight s"
  shows "singleFlight (stepGoroutine load n s)"
proof (cases "length (goroutines s) \<le> n")
  case True
  with inv show ?thesis by (simp add: stepGoroutine_def)
next
  case False
  then have n: "n < length (goroutines s)" by simp
  show ?thesis
  proof (cases "snd (goroutines s ! n)")
    case AtLoad
    have "singleFlight (moveTo n AtLoadOrStore s)"
      using inv n AtLoad by (intro singleFlight_moveTo) simp_all
    moreover have "singleFlight (moveTo n AtReceive s)"
      if "entryMap s (fst (goroutines s ! n)) = Some e" for e
      using inv n AtLoad that by (intro singleFlight_moveTo) simp_all
    ultimately show ?thesis
      using AtLoad n by (simp add: stepGoroutine_def Let_def split: option.splits)
  next
    case AtLoadOrStore
    have "singleFlight (moveTo n AtReceive s)"
      if "entryMap s (fst (goroutines s ! n)) = Some e" for e
      using inv n AtLoadOrStore that by (intro singleFlight_moveTo) simp_all
    with AtLoadOrStore n singleFlight_store [OF inv n] show ?thesis
      by (simp add: stepGoroutine_def Let_def split: option.splits)
  next
    case AtReceive
    have "singleFlight (moveTo n (Returned info err) s)"
      if "entryMap s (fst (goroutines s ! n)) = Some (Resolved info err)" for info err
      using inv n AtReceive that by (intro singleFlight_moveTo) simp_all
    with AtReceive n inv show ?thesis
      by (simp add: stepGoroutine_def Let_def split: option.splits cacheEntry.splits)
  next
    case AtLoadCall
    obtain info err where r: "load (fst (goroutines s ! n)) s = (info, err)"
      by (cases "load (fst (goroutines s ! n)) s") auto
    with AtLoadCall n singleFlight_load [OF inv n AtLoadCall, of info err] show ?thesis
      by (simp add: stepGoroutine_def Let_def)
  next
    case (Returned info err)
    with inv n show ?thesis by (simp add: stepGoroutine_def)
  qed
qed

lemma singleFlight_run:
  "singleFlight s \<Longrightarrow> singleFlight (runGoroutines load schedule s)"
  by (induction schedule arbitrary: s) (simp_all add: singleFlight_step)

lemma singleFlight_start: "singleFlight (startGoroutines keys)"
  by (simp add: singleFlight_def callerHasPending_def oneCallerPerKey_def calledOnce_def
        returnedFromEntry_def waiterHasEntry_def pendingHasCaller_def startGoroutines_def)

lemma stepGoroutine_keys:
  "map fst (goroutines (stepGoroutine load n s)) = map fst (goroutines s)"
proof (cases "length (goroutines s) \<le> n")
  case True
  then show ?thesis by (simp add: stepGoroutine_def)
next
  case False
  then have "map fst (goroutines (moveTo n pos s)) = map fst (goroutines s)" for pos
    by (simp add: moveTo_def map_update list_update_same_conv)
  then show ?thesis
    by (simp add: stepGoroutine_def Let_def
          split: position.splits option.splits cacheEntry.splits)
qed

lemma runGoroutines_keys:
  "map fst (goroutines (runGoroutines load schedule s)) = map fst (goroutines s)"
  by (induction schedule arbitrary: s) (simp_all add: stepGoroutine_keys)

lemma runGoroutines_length:
  "length (goroutines (runGoroutines load schedule s)) = length (goroutines s)"
  using runGoroutines_keys [of load schedule s, THEN arg_cong, of length] by simp

lemma runGoroutines_key:
  "n < length (goroutines s) \<Longrightarrow>
     fst (goroutines (runGoroutines load schedule s) ! n) = fst (goroutines s ! n)"
  using runGoroutines_keys [of load schedule s, THEN arg_cong, of "\<lambda>xs. xs ! n"]
  by (simp add: runGoroutines_length)

lemma runGoroutines_append:
  "runGoroutines load (xs @ ys) s = runGoroutines load ys (runGoroutines load xs s)"
  by (induction xs arbitrary: s) simp_all

text \<open>What the loader is recorded to have returned, it has returned.\<close>

lemma loadCalls_step:
  assumes "\<forall>c \<in> set (loadCalls s). \<exists>s0. snd c = load (fst c) s0"
  shows "\<forall>c \<in> set (loadCalls (stepGoroutine load n s)). \<exists>s0. snd c = load (fst c) s0"
proof (cases "length (goroutines s) \<le> n")
  case True
  with assms show ?thesis by (simp add: stepGoroutine_def)
next
  case False
  show ?thesis
  proof (cases "snd (goroutines s ! n)")
    case AtLoadCall
    have "\<exists>s0. load (fst (goroutines s ! n)) s = load (fst (goroutines s ! n)) s0"
      by blast
    with AtLoadCall False assms show ?thesis
      by (simp add: stepGoroutine_def Let_def moveTo_simps)
  qed (use False assms in \<open>simp_all add: stepGoroutine_def Let_def moveTo_simps
         split: option.splits cacheEntry.splits\<close>)
qed

lemma loadCalls_run:
  "\<forall>c \<in> set (loadCalls s). \<exists>s0. snd c = load (fst c) s0 \<Longrightarrow>
   \<forall>c \<in> set (loadCalls (runGoroutines load schedule s)). \<exists>s0. snd c = load (fst c) s0"
proof (induction schedule arbitrary: s)
  case Nil
  then show ?case by simp
next
  case (Cons n schedule)
  from Cons.IH [OF loadCalls_step [OF Cons.prems]] show ?case by simp
qed

text \<open>
  A goroutine that runs alone through its call does what \<open>get\<close> of the
  sequential model does: with no entry for the key it stores a pending entry,
  calls the loader and publishes the result; with a resolved entry it returns
  what the entry holds and calls nothing.
\<close>

lemma goroutine_alone_loads:
  assumes "n < length (goroutines s)" "goroutines s ! n = (key, AtLoad)" "entryMap s key = None"
  shows "entryMap (runGoroutines load [n, n, n] s)
           = (entryMap s)(key \<mapsto> Resolved
                (fst (load key ((moveTo n AtLoadCall (moveTo n AtLoadOrStore s))
                                   \<lparr>entryMap := (entryMap s)(key \<mapsto> Pending)\<rparr>)))
                (snd (load key ((moveTo n AtLoadCall (moveTo n AtLoadOrStore s))
                                   \<lparr>entryMap := (entryMap s)(key \<mapsto> Pending)\<rparr>))))"
    and "loadCalls (runGoroutines load [n, n, n] s)
           = loadCalls s @ [(key, load key ((moveTo n AtLoadCall (moveTo n AtLoadOrStore s))
                                   \<lparr>entryMap := (entryMap s)(key \<mapsto> Pending)\<rparr>))]"
  using assms by (simp_all add: stepGoroutine_def moveTo_def Let_def)

lemma goroutine_alone_finds:
  assumes "n < length (goroutines s)" "goroutines s ! n = (key, AtLoad)"
    "entryMap s key = Some (Resolved info err)"
  shows "goroutines (runGoroutines load [n, n] s) ! n = (key, Returned info err)"
    and "entryMap (runGoroutines load [n, n] s) = entryMap s"
    and "loadCalls (runGoroutines load [n, n] s) = loadCalls s"
  using assms by (simp_all add: stepGoroutine_def moveTo_def Let_def)

subsection \<open>Every caller returns\<close>

lemma stepGoroutine_other:
  "m \<noteq> n \<Longrightarrow> goroutines (stepGoroutine load m s) ! n = goroutines s ! n"
  by (simp add: stepGoroutine_def moveTo_def Let_def
        split: position.splits option.splits cacheEntry.splits)

lemma runGoroutines_other:
  "n \<notin> set xs \<Longrightarrow> goroutines (runGoroutines load xs s) ! n = goroutines s ! n"
  by (induction xs arbitrary: s) (simp_all add: stepGoroutine_other)

text \<open>A resolved entry stays as it is.\<close>

lemma resolved_step:
  assumes inv: "singleFlight s" and r: "entryMap s k = Some (Resolved i e)"
  shows "entryMap (stepGoroutine load m s) k = Some (Resolved i e)"
proof (cases "length (goroutines s) \<le> m")
  case True
  with r show ?thesis by (simp add: stepGoroutine_def)
next
  case False
  then have m: "m < length (goroutines s)" by simp
  show ?thesis
  proof (cases "snd (goroutines s ! m)")
    case AtLoadCall
    from inv have "callerHasPending s" by (simp add: singleFlight_def)
    with m AtLoadCall have "entryMap s (fst (goroutines s ! m)) = Some Pending"
      unfolding callerHasPending_def by blast
    with r have "fst (goroutines s ! m) \<noteq> k" by auto
    with AtLoadCall m r show ?thesis
      by (simp add: stepGoroutine_def Let_def moveTo_simps)
  next
    case AtLoadOrStore
    show ?thesis
    proof (cases "entryMap s (fst (goroutines s ! m))")
      case None
      with r have "fst (goroutines s ! m) \<noteq> k" by auto
      with AtLoadOrStore m r None show ?thesis
        by (simp add: stepGoroutine_def Let_def moveTo_simps)
    next
      case (Some y)
      with AtLoadOrStore m r show ?thesis
        by (simp add: stepGoroutine_def Let_def moveTo_simps)
    qed
  qed (use m r in \<open>simp_all add: stepGoroutine_def Let_def moveTo_simps
         split: option.splits cacheEntry.splits\<close>)
qed

lemma resolved_run:
  "singleFlight s \<Longrightarrow> entryMap s k = Some (Resolved i e) \<Longrightarrow>
   entryMap (runGoroutines load xs s) k = Some (Resolved i e)"
proof (induction xs arbitrary: s)
  case Nil
  then show ?case by simp
next
  case (Cons m xs)
  from Cons.IH [OF singleFlight_step [OF Cons.prems(1)] resolved_step [OF Cons.prems]]
  show ?case by simp
qed

lemma stepsLeft_le: "stepsLeft s n \<le> 4"
  by (simp add: stepsLeft_def split: position.splits option.splits cacheEntry.splits)

lemma stepsLeft_zero:
  "(stepsLeft s n = 0) = (\<exists>info err. snd (goroutines s ! n) = Returned info err)"
  by (simp add: stepsLeft_def split: position.splits option.splits cacheEntry.splits)

text \<open>
  The step of a goroutine brings it nearer to its return, unless it has
  returned or waits at the receive for an entry that is still pending.
\<close>

lemma stepsLeft_own_step:
  assumes inv: "singleFlight s" and n: "n < length (goroutines s)"
  shows "stepsLeft (stepGoroutine load n s) n < stepsLeft s n \<or> stepsLeft s n = 0
         \<or> (snd (goroutines s ! n) = AtReceive
              \<and> entryMap s (fst (goroutines s ! n)) = Some Pending)"
proof (cases "snd (goroutines s ! n)")
  case AtLoad
  with n show ?thesis
    by (simp add: stepsLeft_def stepGoroutine_def Let_def moveTo_nth moveTo_simps
          split: option.splits cacheEntry.splits)
next
  case AtLoadOrStore
  with n show ?thesis
    by (simp add: stepsLeft_def stepGoroutine_def Let_def moveTo_nth moveTo_simps
          split: option.splits cacheEntry.splits)
next
  case AtReceive
  from inv have "waiterHasEntry s" by (simp add: singleFlight_def)
  with n AtReceive have "entryMap s (fst (goroutines s ! n)) \<noteq> None"
    unfolding waiterHasEntry_def by blast
  with n AtReceive show ?thesis
    by (auto simp: stepsLeft_def stepGoroutine_def Let_def moveTo_nth moveTo_simps
          split: option.splits cacheEntry.splits)
next
  case AtLoadCall
  with n show ?thesis
    by (simp add: stepsLeft_def stepGoroutine_def Let_def moveTo_nth moveTo_simps)
next
  case (Returned info err)
  then show ?thesis by (simp add: stepsLeft_def)
qed

text \<open>No step of any goroutine takes a goroutine further from its return.\<close>

lemma stepsLeft_step:
  assumes inv: "singleFlight s" and n: "n < length (goroutines s)"
  shows "stepsLeft (stepGoroutine load m s) n \<le> stepsLeft s n"
proof (cases "m = n")
  case True
  have wait: "stepsLeft (stepGoroutine load n s) n = stepsLeft s n"
    if "snd (goroutines s ! n) = AtReceive" "entryMap s (fst (goroutines s ! n)) = Some Pending"
    using that n by (simp add: stepGoroutine_def Let_def)
  have over: "stepsLeft (stepGoroutine load n s) n = stepsLeft s n" if "stepsLeft s n = 0"
  proof -
    from that obtain info err where "snd (goroutines s ! n) = Returned info err"
      by (auto simp: stepsLeft_zero)
    then show ?thesis by (simp add: stepGoroutine_def Let_def)
  qed
  from stepsLeft_own_step [OF inv n, of load] wait over True show ?thesis
    by auto
next
  case False
  note same = stepGoroutine_other [OF False, of load s]
  show ?thesis
  proof (cases "snd (goroutines s ! n) = AtReceive")
    case False
    with same show ?thesis
      by (simp add: stepsLeft_def split: position.splits)
  next
    case True
    from inv have "waiterHasEntry s" by (simp add: singleFlight_def)
    with n True have entry: "entryMap s (fst (goroutines s ! n)) \<noteq> None"
      unfolding waiterHasEntry_def by blast
    show ?thesis
    proof (cases "\<exists>i e. entryMap s (fst (goroutines s ! n)) = Some (Resolved i e)")
      case True
      then obtain i e where r: "entryMap s (fst (goroutines s ! n)) = Some (Resolved i e)"
        by blast
      from resolved_step [OF inv r, of load m] r same \<open>snd (goroutines s ! n) = AtReceive\<close>
      show ?thesis by (simp add: stepsLeft_def)
    next
      case False
      with entry have "entryMap s (fst (goroutines s ! n)) = Some Pending"
        by (cases "entryMap s (fst (goroutines s ! n))"; simp)
           (metis cacheEntry.exhaust)
      with same \<open>snd (goroutines s ! n) = AtReceive\<close> show ?thesis
        by (simp add: stepsLeft_def split: option.splits cacheEntry.splits)
    qed
  qed
qed

lemma stepsLeft_run:
  "singleFlight s \<Longrightarrow> n < length (goroutines s) \<Longrightarrow>
   stepsLeft (runGoroutines load xs s) n \<le> stepsLeft s n"
proof (induction xs arbitrary: s)
  case Nil
  show ?case by simp
next
  case (Cons m xs)
  have len: "n < length (goroutines (stepGoroutine load m s))"
    using Cons.prems(2) runGoroutines_length [of load "[m]" s] by simp
  from Cons.IH [OF singleFlight_step [OF Cons.prems(1)] len]
  have "stepsLeft (runGoroutines load (m # xs) s) n \<le> stepsLeft (stepGoroutine load m s) n"
    by simp
  also have "\<dots> \<le> stepsLeft s n"
    by (rule stepsLeft_step [OF Cons.prems])
  finally show ?case .
qed

text \<open>
  In a run in which the goroutine \<open>n\<close> gets a turn, it comes nearer to its
  return, unless it has returned or waits for a pending entry already at the
  start of the run.
\<close>

lemma stepsLeft_turn:
  "singleFlight s \<Longrightarrow> n < length (goroutines s) \<Longrightarrow> n \<in> set xs \<Longrightarrow>
   stepsLeft (runGoroutines load xs s) n < stepsLeft s n \<or> stepsLeft s n = 0
   \<or> (snd (goroutines s ! n) = AtReceive \<and> entryMap s (fst (goroutines s ! n)) = Some Pending)"
proof (induction xs arbitrary: s)
  case Nil
  then show ?case by simp
next
  case (Cons m xs)
  define s' where "s' = stepGoroutine load m s"
  have inv': "singleFlight s'"
    unfolding s'_def by (rule singleFlight_step [OF Cons.prems(1)])
  have len: "n < length (goroutines s')"
    unfolding s'_def using Cons.prems(2) runGoroutines_length [of load "[m]" s] by simp
  have run: "runGoroutines load (m # xs) s = runGoroutines load xs s'"
    by (simp add: s'_def)
  note rest = stepsLeft_run [OF inv' len, of load xs]
  note first = stepsLeft_step [OF Cons.prems(1,2), of load m, folded s'_def]
  show ?case
  proof (cases "m = n")
    case True
    from stepsLeft_own_step [OF Cons.prems(1,2), of load] True rest show ?thesis
      unfolding run s'_def by auto
  next
    case False
    with Cons.prems(3) have "n \<in> set xs" by simp
    from Cons.IH [OF inv' len this]
    consider "stepsLeft (runGoroutines load xs s') n < stepsLeft s' n"
      | "stepsLeft s' n = 0"
      | "snd (goroutines s' ! n) = AtReceive" "entryMap s' (fst (goroutines s' ! n)) = Some Pending"
      by (elim disjE conjE)
    then show ?thesis
    proof cases
      case 1
      with first show ?thesis unfolding run by simp
    next
      case 2
      with rest have "stepsLeft (runGoroutines load xs s') n = 0" by simp
      then show ?thesis unfolding run by (cases "stepsLeft s n = 0") simp_all
    next
      case 3
      have same: "goroutines s' ! n = goroutines s ! n"
        unfolding s'_def using False by (rule stepGoroutine_other)
      from Cons.prems(1) have "waiterHasEntry s" by (simp add: singleFlight_def)
      with Cons.prems(2) 3(1) same have entry: "entryMap s (fst (goroutines s ! n)) \<noteq> None"
        unfolding waiterHasEntry_def by simp
      have "entryMap s (fst (goroutines s ! n)) = Some Pending"
      proof (rule ccontr)
        assume "entryMap s (fst (goroutines s ! n)) \<noteq> Some Pending"
        with entry obtain i e where "entryMap s (fst (goroutines s ! n)) = Some (Resolved i e)"
          by (cases "entryMap s (fst (goroutines s ! n))"; simp) (metis cacheEntry.exhaust)
        from resolved_step [OF Cons.prems(1) this, of load m] 3(2) same show False
          by (simp add: s'_def)
      qed
      with 3(1) same show ?thesis by simp
    qed
  qed
qed

text \<open>
  In a run in which the goroutine that is about to call the loader for a key
  gets a turn, the entry of the key is resolved.
\<close>

lemma caller_step:
  assumes "c < length (goroutines s)" "goroutines s ! c = (k, AtLoadCall)"
  shows "\<exists>i e. entryMap (stepGoroutine load c s) k = Some (Resolved i e)"
  using assms by (simp add: stepGoroutine_def Let_def)

lemma caller_turn:
  "singleFlight s \<Longrightarrow> c < length (goroutines s) \<Longrightarrow> goroutines s ! c = (k, AtLoadCall) \<Longrightarrow>
   c \<in> set xs \<Longrightarrow> \<exists>i e. entryMap (runGoroutines load xs s) k = Some (Resolved i e)"
proof (induction xs arbitrary: s)
  case Nil
  then show ?case by simp
next
  case (Cons m xs)
  have inv': "singleFlight (stepGoroutine load m s)"
    by (rule singleFlight_step [OF Cons.prems(1)])
  show ?case
  proof (cases "m = c")
    case True
    from caller_step [OF Cons.prems(2,3), of load] obtain i e
      where "entryMap (stepGoroutine load c s) k = Some (Resolved i e)" by blast
    from resolved_run [OF _ this, of load xs] inv' True show ?thesis
      by auto
  next
    case False
    have len: "c < length (goroutines (stepGoroutine load m s))"
      using Cons.prems(2) runGoroutines_length [of load "[m]" s] by simp
    have pos: "goroutines (stepGoroutine load m s) ! c = (k, AtLoadCall)"
      using stepGoroutine_other [OF False, of load s] Cons.prems(3) by simp
    from False Cons.prems(4) have "c \<in> set xs" by simp
    from Cons.IH [OF inv' len pos this] show ?thesis by simp
  qed
qed

text \<open>A round brings every goroutine nearer to its return.\<close>

lemma stepsLeft_round:
  assumes inv: "singleFlight s" and n: "n < length (goroutines s)"
    and all: "coversAll (length (goroutines s)) xs"
  shows "stepsLeft (runGoroutines load xs s) n \<le> stepsLeft s n - 1"
proof -
  define t where "t = runGoroutines load xs s"
  from all have turns: "i \<in> set xs" if "i < length (goroutines s)" for i
    using that by (simp add: coversAll_def list_all_iff)
  from stepsLeft_turn [OF inv n turns [OF n], of load]
  consider "stepsLeft t n < stepsLeft s n" | "stepsLeft s n = 0"
    | "snd (goroutines s ! n) = AtReceive" "entryMap s (fst (goroutines s ! n)) = Some Pending"
    unfolding t_def by (elim disjE conjE)
  then have "stepsLeft t n \<le> stepsLeft s n - 1"
  proof cases
    case 1
    then show ?thesis by simp
  next
    case 2
    with stepsLeft_run [OF inv n, of load xs] show ?thesis
      unfolding t_def by simp
  next
    case 3
    from inv have "pendingHasCaller s" by (simp add: singleFlight_def)
    with 3(2) obtain c where c: "c < length (goroutines s)"
      "goroutines s ! c = (fst (goroutines s ! n), AtLoadCall)"
      unfolding pendingHasCaller_def by blast
    from caller_turn [OF inv c turns [OF c(1)], of load] obtain i e
      where r: "entryMap t (fst (goroutines s ! n)) = Some (Resolved i e)"
      unfolding t_def by blast
    have key: "fst (goroutines t ! n) = fst (goroutines s ! n)"
      unfolding t_def using n by (rule runGoroutines_key)
    from 3 have two: "stepsLeft s n = 2" by (simp add: stepsLeft_def)
    have "stepsLeft t n \<noteq> 2"
      using r key by (simp add: stepsLeft_def split: position.splits)
    moreover have "stepsLeft t n \<le> 2"
      using stepsLeft_run [OF inv n, of load xs] two
      unfolding t_def by simp
    ultimately show ?thesis using two by simp
  qed
  then show ?thesis by (simp add: t_def)
qed

lemma stepsLeft_rounds:
  "singleFlight s \<Longrightarrow> n < length (goroutines s) \<Longrightarrow>
   list_all (coversAll (length (goroutines s))) rounds \<Longrightarrow>
   stepsLeft (runGoroutines load (concat rounds) s) n \<le> stepsLeft s n - length rounds"
proof (induction rounds arbitrary: s)
  case Nil
  show ?case by simp
next
  case (Cons xs rounds)
  define t where "t = runGoroutines load xs s"
  have inv': "singleFlight t"
    unfolding t_def by (rule singleFlight_run [OF Cons.prems(1)])
  have len: "length (goroutines t) = length (goroutines s)"
    unfolding t_def by (rule runGoroutines_length)
  have run: "runGoroutines load (concat (xs # rounds)) s = runGoroutines load (concat rounds) t"
    by (simp add: runGoroutines_append t_def)
  from Cons.prems(3) have first: "coversAll (length (goroutines s)) xs"
    and rest: "list_all (coversAll (length (goroutines t))) rounds"
    by (simp_all add: len)
  from Cons.IH [OF inv' _ rest] Cons.prems(2) len
  have "stepsLeft (runGoroutines load (concat rounds) t) n \<le> stepsLeft t n - length rounds"
    by simp
  also have "\<dots> \<le> (stepsLeft s n - 1) - length rounds"
    using stepsLeft_round [OF Cons.prems(1,2) first, of load, folded t_def] by simp
  finally show ?case
    unfolding run by simp
qed

text \<open>
  From any state of the invariant, four rounds bring every goroutine to its
  return.
\<close>

lemma all_return:
  assumes inv: "singleFlight s" and n: "n < length (goroutines s)"
    and rounds: "list_all (coversAll (length (goroutines s))) rounds" "4 \<le> length rounds"
  shows "\<exists>info err. snd (goroutines (runGoroutines load (concat rounds) s) ! n) = Returned info err"
proof -
  from stepsLeft_rounds [OF inv n rounds(1), of load] stepsLeft_le [of s n] rounds(2)
  have "stepsLeft (runGoroutines load (concat rounds) s) n = 0"
    by simp
  then show ?thesis by (simp add: stepsLeft_zero)
qed

lemma count_list_distinct: "distinct xs \<Longrightarrow> count_list xs x \<le> 1"
  by (induction xs) auto

lemma count_list_distinct_member: "distinct xs \<Longrightarrow> x \<in> set xs \<Longrightarrow> count_list xs x = 1"
  by (induction xs) auto

text \<open>
  Claim C3. Start any number of goroutines, each in a call of \<open>get\<close> with a
  key of its own choice and the same loader, on an empty cache, and let them
  take their steps in any order. Then at every moment the loader has been
  called at most once with each key, and each goroutine is still in the call
  for the key it began with; a goroutine that has returned has the result of
  the call of the loader for its key, which is what the loader returned and
  what the entry of the key holds; so two goroutines that have returned from
  calls with the same key have the same result. And no caller is left behind:
  whatever the steps so far, once every goroutine has had a turn four more
  times (four rounds, in each of which every goroutine gets at least one
  turn, in any order), every goroutine has returned, with the result of the
  one call of the loader for its key.
\<close>

theorem loader_called_once_per_key:
  "count_list (map fst (loadCalls (runGoroutines load schedule (startGoroutines keys)))) key \<le> 1 \<and>
   map fst (goroutines (runGoroutines load schedule (startGoroutines keys))) = keys \<and>
   (m < length keys \<and>
    goroutines (runGoroutines load schedule (startGoroutines keys)) ! m = (key, Returned info err)
    \<longrightarrow> (key, info, err) \<in> set (loadCalls (runGoroutines load schedule (startGoroutines keys)))
        \<and> (\<exists>s0. (info, err) = load key s0)
        \<and> entryMap (runGoroutines load schedule (startGoroutines keys)) key
             = Some (Resolved info err)) \<and>
   (m < length keys \<and> n < length keys \<and>
    goroutines (runGoroutines load schedule (startGoroutines keys)) ! m = (key, Returned info err) \<and>
    goroutines (runGoroutines load schedule (startGoroutines keys)) ! n = (key, Returned info' err')
    \<longrightarrow> info = info' \<and> err = err') \<and>
   (m < length keys \<and> list_all (coversAll (length keys)) rounds \<and> 4 \<le> length rounds \<longrightarrow>
      (\<exists>i e. goroutines (runGoroutines load (schedule @ concat rounds)
                           (startGoroutines keys)) ! m = (keys ! m, Returned i e) \<and>
             (keys ! m, i, e) \<in> set (loadCalls (runGoroutines load (schedule @ concat rounds)
                                        (startGoroutines keys))) \<and>
             count_list (map fst (loadCalls (runGoroutines load (schedule @ concat rounds)
                                        (startGoroutines keys)))) (keys ! m) = 1))"
proof -
  define s where "s = runGoroutines load schedule (startGoroutines keys)"
  define t where "t = runGoroutines load (schedule @ concat rounds) (startGoroutines keys)"
  have facts: "singleFlight u \<and> map fst (goroutines u) = keys \<and> length (goroutines u) = length keys
               \<and> (\<forall>c \<in> set (loadCalls u). \<exists>s0. snd c = load (fst c) s0)"
    if "u = runGoroutines load xs (startGoroutines keys)" for u xs
  proof -
    have inv: "singleFlight u"
      unfolding that by (intro singleFlight_run singleFlight_start)
    have keys: "map fst (goroutines u) = keys"
      unfolding that by (simp add: runGoroutines_keys startGoroutines_def comp_def)
    have "length (map fst (goroutines u)) = length keys"
      by (simp only: keys)
    then have len: "length (goroutines u) = length keys"
      by simp
    have "\<forall>c \<in> set (loadCalls u). \<exists>s0. snd c = load (fst c) s0"
      unfolding that by (rule loadCalls_run) (simp add: startGoroutines_def)
    with inv keys len show ?thesis by simp
  qed
  have returned: "(key, info, err) \<in> set (loadCalls u) \<and> (\<exists>s0. (info, err) = load key s0)
                  \<and> entryMap u key = Some (Resolved info err)"
    if u: "u = runGoroutines load xs (startGoroutines keys)"
      and m: "m < length keys" "goroutines u ! m = (key, Returned info err)"
    for u xs m key info err
  proof -
    from facts [OF u] have "returnedFromEntry u" "calledOnce u" and len: "length (goroutines u) = length keys"
      and ld: "\<forall>c \<in> set (loadCalls u). \<exists>s0. snd c = load (fst c) s0"
      by (simp_all add: singleFlight_def)
    from m len have "m < length (goroutines u)"
      "snd (goroutines u ! m) = Returned info err" "fst (goroutines u ! m) = key"
      by simp_all
    with \<open>returnedFromEntry u\<close> have e: "entryMap u key = Some (Resolved info err)"
      unfolding returnedFromEntry_def by blast
    with \<open>calledOnce u\<close> have c: "(key, info, err) \<in> set (loadCalls u)"
      unfolding calledOnce_def by simp
    with ld have "\<exists>s0. (info, err) = load key s0"
      by fastforce
    with e c show ?thesis by simp
  qed
  have once: "distinct (map fst (loadCalls u))"
    if "u = runGoroutines load xs (startGoroutines keys)" for u xs
    using facts [OF that] by (simp add: singleFlight_def calledOnce_def)
  have c1: "count_list (map fst (loadCalls s)) key \<le> 1"
    using once [OF s_def] by (rule count_list_distinct)
  have c2: "map fst (goroutines s) = keys"
    using facts [OF s_def] by simp
  have c3: "(key, info, err) \<in> set (loadCalls s) \<and> (\<exists>s0. (info, err) = load key s0)
            \<and> entryMap s key = Some (Resolved info err)"
    if "m < length keys" "goroutines s ! m = (key, Returned info err)"
    using returned [OF s_def that] .
  have c4: "info = info' \<and> err = err'"
    if "m < length keys" "n < length keys"
      "goroutines s ! m = (key, Returned info err)" "goroutines s ! n = (key, Returned info' err')"
    using returned [OF s_def that(1,3)] returned [OF s_def that(2,4)] by simp
  have c5: "\<exists>i e. goroutines t ! m = (keys ! m, Returned i e) \<and>
             (keys ! m, i, e) \<in> set (loadCalls t) \<and>
             count_list (map fst (loadCalls t)) (keys ! m) = 1"
    if m: "m < length keys" and rounds: "list_all (coversAll (length keys)) rounds"
      "4 \<le> length rounds"
  proof -
    from facts [OF s_def] have inv: "singleFlight s" and len: "length (goroutines s) = length keys"
      by simp_all
    have t: "t = runGoroutines load (concat rounds) s"
      by (simp add: t_def s_def runGoroutines_append)
    from all_return [OF inv, of m rounds load] m len rounds obtain i e
      where pos: "snd (goroutines t ! m) = Returned i e"
      unfolding t by auto
    from facts [OF t_def] have "map fst (goroutines t) = keys" "length (goroutines t) = length keys"
      by simp_all
    with m have "fst (goroutines t ! m) = keys ! m"
      by (metis nth_map)
    with pos have g: "goroutines t ! m = (keys ! m, Returned i e)"
      by (simp add: prod_eq_iff)
    from returned [OF t_def m g] have c: "(keys ! m, i, e) \<in> set (loadCalls t)"
      by simp
    then have "keys ! m \<in> set (map fst (loadCalls t))"
      by force
    with once [OF t_def] have "count_list (map fst (loadCalls t)) (keys ! m) = 1"
      by (rule count_list_distinct_member)
    with g c show ?thesis by blast
  qed
  from c1 c2 c3 c4 c5 show ?thesis
    unfolding s_def t_def by blast
qed

theorem loader_called_once_per_key_witness:
  "goroutines (runGoroutines (\<lambda>key s. (length (loadCalls s), None)) [1, 1, 0]
      (startGoroutines [''a'', ''a'', ''b'']))
     = [(''a'', AtReceive), (''a'', AtLoadCall), (''b'', AtLoad)] \<and>
   list_all (coversAll (length [''a'', ''a'', ''b''])) [[0, 1, 2], [2, 0, 1], [0, 1, 1, 2], [1, 2, 0]] \<and>
   goroutines (runGoroutines (\<lambda>key s. (length (loadCalls s), None))
      ([1, 1, 0] @ concat [[0, 1, 2], [2, 0, 1], [0, 1, 1, 2], [1, 2, 0]]) (startGoroutines [''a'', ''a'', ''b'']))
     = [(''a'', Returned 0 None), (''a'', Returned 0 None), (''b'', Returned 1 None)] \<and>
   loadCalls (runGoroutines (\<lambda>key s. (length (loadCalls s), None))
      ([1, 1, 0] @ concat [[0, 1, 2], [2, 0, 1], [0, 1, 1, 2], [1, 2, 0]]) (startGoroutines [''a'', ''a'', ''b'']))
     = [(''a'', 0, None), (''b'', 1, None)] \<and>
   count_list (map fst (loadCalls (runGoroutines (\<lambda>key s. (length (loadCalls s), None))
      ([1, 1, 0] @ concat [[0, 1, 2], [2, 0, 1], [0, 1, 1, 2], [1, 2, 0]]) (startGoroutines [''a'', ''a'', ''b''])))) ''a''
     \<le> 1 \<and>
   entryMap (runGoroutines (\<lambda>key s. (length (loadCalls s), None))
      ([1, 1, 0] @ concat [[0, 1, 2], [2, 0, 1], [0, 1, 1, 2], [1, 2, 0]]) (startGoroutines [''a'', ''a'', ''b''])) ''a''
     = Some (Resolved 0 None) \<and>
   (\<exists>i e. goroutines (runGoroutines (\<lambda>key s. (length (loadCalls s), None))
              ([1, 1, 0] @ concat [[0, 1, 2], [2, 0, 1], [0, 1, 1, 2], [1, 2, 0]])
              (startGoroutines [''a'', ''a'', ''b''])) ! 0 = (''a'', Returned i e))"
proof -
  define load where "load = (\<lambda>(key :: string) (s :: nat shared). (length (loadCalls s), None :: error option))"
  define s where "s = runGoroutines load [1, 1, 0] (startGoroutines [''a'', ''a'', ''b''])"
  define t where "t = runGoroutines load ([1, 1, 0] @ concat [[0, 1, 2], [2, 0, 1], [0, 1, 1, 2], [1, 2, 0]])
                        (startGoroutines [''a'', ''a'', ''b''])"
  have waiting: "goroutines s = [(''a'', AtReceive), (''a'', AtLoadCall), (''b'', AtLoad)]"
    unfolding s_def load_def by code_simp
  have rounds: "list_all (coversAll (length [''a'', ''a'', ''b'']))
                  [[0, 1, 2], [2, 0, 1], [0, 1, 1, 2], [1, 2, 0]]"
    by code_simp
  have returned: "goroutines t
     = [(''a'', Returned 0 None), (''a'', Returned 0 None), (''b'', Returned 1 None)]"
    unfolding t_def load_def by code_simp
  have calls: "loadCalls t = [(''a'', 0, None), (''b'', 1, None)]"
    unfolding t_def load_def by code_simp
  note later = loader_called_once_per_key
    [where load = load and schedule = "[1, 1, 0] @ concat [[0, 1, 2], [2, 0, 1], [0, 1, 1, 2], [1, 2, 0]]"
       and keys = "[''a'', ''a'', ''b'']" and key = "''a''" and m = 0 and n = 1
       and info = 0 and err = None and info' = 0 and err' = None, folded t_def]
  from later have count: "count_list (map fst (loadCalls t)) ''a'' \<le> 1"
    by (rule conjunct1)
  from later have "0 < length [''a'', ''a'', ''b''] \<and> goroutines t ! 0 = (''a'', Returned 0 None)
       \<longrightarrow> (''a'', 0, None) \<in> set (loadCalls t) \<and> (\<exists>s0. (0, None) = load ''a'' s0)
           \<and> entryMap t ''a'' = Some (Resolved 0 None)"
    by (rule conjunct2 [THEN conjunct2, THEN conjunct1])
  then have entry: "entryMap t ''a'' = Some (Resolved 0 None)"
    by (simp add: returned)
  note sooner = loader_called_once_per_key
    [where load = load and schedule = "[1, 1, 0]"
       and keys = "[''a'', ''a'', ''b'']" and m = 0
       and rounds = "[[0, 1, 2], [2, 0, 1], [0, 1, 1, 2], [1, 2, 0]]", folded t_def]
  from sooner have "0 < length [''a'', ''a'', ''b''] \<and>
      list_all (coversAll (length [''a'', ''a'', ''b''])) [[0, 1, 2], [2, 0, 1], [0, 1, 1, 2], [1, 2, 0]] \<and>
      4 \<le> length [[0, 1, 2], [2, 0, 1], [0, 1, 1, 2], [1, 2, 0 :: nat]] \<longrightarrow>
      (\<exists>i e. goroutines t ! 0 = ([''a'', ''a'', ''b''] ! 0, Returned i e) \<and>
             ([''a'', ''a'', ''b''] ! 0, i, e) \<in> set (loadCalls t) \<and>
             count_list (map fst (loadCalls t)) ([''a'', ''a'', ''b''] ! 0) = 1)"
    by (rule conjunct2 [THEN conjunct2, THEN conjunct2, THEN conjunct2])
  with rounds have progress: "\<exists>i e. goroutines t ! 0 = (''a'', Returned i e)"
    by auto
  from waiting rounds returned calls count entry progress show ?thesis
    unfolding s_def t_def load_def by (intro conjI)
qed

end
